theory Spec2Isabelle
  imports
    Complex_Main
    "HOL-Library.Char_ord"
    "HOL-Library.List_Lexorder"
begin

section \<open>Python strings and POSIX paths\<close>

text \<open>
  Strings are byte strings. \<open>str.lower()\<close> maps the letters A..Z to a..z and leaves
  every other byte alone; the markers the program looks for are plain ASCII.
\<close>

definition lower_char :: "char \<Rightarrow> char" where
  "lower_char c =
     (let n = (of_char c :: nat) in if 65 \<le> n \<and> n \<le> 90 then char_of (n + 32) else c)"

definition lower :: "string \<Rightarrow> string" where
  "lower s = map lower_char s"

text \<open>\<open>s.startswith(p)\<close>, \<open>s.endswith(p)\<close> and \<open>needle in hay\<close>.\<close>

fun startswith :: "string \<Rightarrow> string \<Rightarrow> bool" where
  "startswith s [] = True"
| "startswith [] (p # ps) = False"
| "startswith (c # cs) (p # ps) = (c = p \<and> startswith cs ps)"

definition endswith :: "string \<Rightarrow> string \<Rightarrow> bool" where
  "endswith s p = startswith (rev s) (rev p)"

fun contains :: "string \<Rightarrow> string \<Rightarrow> bool" where
  "contains needle [] = (needle = [])"
| "contains needle (c # cs) = (startswith (c # cs) needle \<or> contains needle cs)"

text \<open>\<open>str(n)\<close> for a natural number.\<close>

fun string_of_nat :: "nat \<Rightarrow> string" where
  "string_of_nat n =
     (if n < 10 then [char_of (48 + n)]
      else string_of_nat (n div 10) @ [char_of (48 + n mod 10)])"

text \<open>
  \<open>os.path\<close> on a POSIX system (\<open>os.sep = '/'\<close>): \<open>s.rstrip(os.sep)\<close>,
  \<open>basename\<close>, \<open>dirname\<close>, \<open>join\<close> of two parts and \<open>splitext\<close>.
\<close>

definition sep :: char where
  "sep = CHR ''/''"

definition rstrip_sep :: "string \<Rightarrow> string" where
  "rstrip_sep s = rev (dropWhile (\<lambda>c. c = sep) (rev s))"

definition basename :: "string \<Rightarrow> string" where
  "basename p = rev (takeWhile (\<lambda>c. c \<noteq> sep) (rev p))"

definition dirname :: "string \<Rightarrow> string" where
  "dirname p =
     (let head = rev (dropWhile (\<lambda>c. c \<noteq> sep) (rev p))
      in if head \<noteq> [] \<and> head \<noteq> replicate (length head) sep then rstrip_sep head else head)"

definition join :: "string \<Rightarrow> string \<Rightarrow> string" where
  "join a b =
     (if startswith b [sep] then b
      else if a = [] \<or> endswith a [sep] then a @ b
      else a @ [sep] @ b)"

definition splitext :: "string \<Rightarrow> string \<times> string" where
  "splitext p =
     (let tail = basename p
      in if CHR ''.'' \<in> set tail
         then let ext = CHR ''.'' # rev (takeWhile (\<lambda>c. c \<noteq> CHR ''.'') (rev tail));
                  stem = take (length tail - length ext) tail
              in if stem = replicate (length stem) (CHR ''.'') then (p, [])
                 else (take (length p - length ext) p, ext)
         else (p, []))"

section \<open>The processing worker\<close>

text \<open>
  \<open>ProcessingWorker\<close> of \<open>gui/workers.py\<close>. The external collaborator, the clock and the
  cancellation flag are the environment of a run:
  \<^item> \<open>service n path\<close> is the \<open>n\<close>-th call of \<open>sky_remover.gemini_sky_removal\<close> (counted
    from 0): how many seconds it blocks, and whether the \<open>try\<close> body then completes or
    raises an exception with the given \<open>str(e)\<close>;
  \<open>cancel_at\<close> is the moment \<open>cancel()\<close> sets \<open>is_cancelled\<close> (the flag is never reset);
  \<open>start_time\<close> is \<open>time.time()\<close> when \<open>run\<close> starts.
  Time is a real number of seconds; it passes in \<open>time.sleep\<close>, by the amount asked for,
  and in the external call.
\<close>

datatype outcome = Returned | Raised string

datatype result = Success string | Failure string

text \<open>
  The progress messages carry an emoji and a formatted float, so they are kept structured:
  \<^item> \<open>RateLimiting w\<close>: percent -1, "Rate limiting: waiting {w:.1f}s before next request...";
  \<^item> \<open>RetryingIn b n m\<close>: percent -1, "Rate limit hit! Retrying in {b}s (attempt {n}/{m})...";
  \<^item> \<open>Processing i total name\<close>: percent int((i - 1) / total * 100),
    "Processing {i}/{total}: {name}";
  \<^item> \<open>Complete\<close>: percent 100, "Processing complete!".
\<close>

datatype notice =
    RateLimiting real
  | RetryingIn nat nat nat
  | Processing nat nat string
  | Complete

text \<open>
  The signals a run emits, in order, and with them the calls of the external collaborator:
  \<open>Dispatch t image_path output_path\<close> is a call entered when the clock reads \<open>t\<close>.
\<close>

datatype event =
    ProgressUpdated notice
  | Dispatch real string string
  | ImageProcessed string string
  | ErrorOccurred string string
  | FinishedAll "(string \<times> result) list"

subsection \<open>What a trace shows\<close>

text \<open>
  The backoff durations announced, the error events and the external calls of a trace.
\<close>

definition backoffs :: "event list \<Rightarrow> nat list" where
  "backoffs evs =
     concat (map (\<lambda>ev. case ev of ProgressUpdated (RetryingIn b n m) \<Rightarrow> [b] | _ \<Rightarrow> []) evs)"

definition errors_of :: "event list \<Rightarrow> (string \<times> string) list" where
  "errors_of evs =
     concat (map (\<lambda>ev. case ev of ErrorOccurred m p \<Rightarrow> [(m, p)] | _ \<Rightarrow> []) evs)"

definition dispatches :: "event list \<Rightarrow> (real \<times> string) list" where
  "dispatches evs =
     concat (map (\<lambda>ev. case ev of Dispatch t p out \<Rightarrow> [(t, p)] | _ \<Rightarrow> []) evs)"

lemma backoffs_append [simp]: "backoffs (xs @ ys) = backoffs xs @ backoffs ys"
  by (simp add: backoffs_def)

lemma errors_of_append [simp]: "errors_of (xs @ ys) = errors_of xs @ errors_of ys"
  by (simp add: errors_of_def)

lemma dispatches_append [simp]: "dispatches (xs @ ys) = dispatches xs @ dispatches ys"
  by (simp add: dispatches_def)

lemma backoffs_simps [simp]:
  "backoffs [] = []"
  "backoffs (ProgressUpdated (RetryingIn b n m) # evs) = b # backoffs evs"
  "backoffs (ProgressUpdated (RateLimiting r) # evs) = backoffs evs"
  "backoffs (ProgressUpdated (Processing i k s) # evs) = backoffs evs"
  "backoffs (ProgressUpdated Complete # evs) = backoffs evs"
  "backoffs (Dispatch t p out # evs) = backoffs evs"
  "backoffs (ImageProcessed p out # evs) = backoffs evs"
  "backoffs (ErrorOccurred msg p # evs) = backoffs evs"
  "backoffs (FinishedAll rs # evs) = backoffs evs"
  by (simp_all add: backoffs_def)

lemma errors_of_simps [simp]:
  "errors_of [] = []"
  "errors_of (ProgressUpdated nt # evs) = errors_of evs"
  "errors_of (Dispatch t p out # evs) = errors_of evs"
  "errors_of (ImageProcessed p out # evs) = errors_of evs"
  "errors_of (ErrorOccurred msg p # evs) = (msg, p) # errors_of evs"
  "errors_of (FinishedAll rs # evs) = errors_of evs"
  by (simp_all add: errors_of_def)

lemma dispatches_simps [simp]:
  "dispatches [] = []"
  "dispatches (ProgressUpdated nt # evs) = dispatches evs"
  "dispatches (Dispatch t p out # evs) = (t, p) # dispatches evs"
  "dispatches (ImageProcessed p out # evs) = dispatches evs"
  "dispatches (ErrorOccurred msg p # evs) = dispatches evs"
  "dispatches (FinishedAll rs # evs) = dispatches evs"
  by (simp_all add: dispatches_def)

record env =
  rate_limit_delay :: real
  output_dir :: string
  start_time :: real
  cancel_at :: "real option"
  service :: "nat \<Rightarrow> string \<Rightarrow> real \<times> outcome"

record worker =
  clock :: real
  calls :: nat
  last_request_time :: real
  retry_count :: nat
  results :: "(string \<times> result) list"
  trace :: "event list"

definition max_retries :: nat where
  "max_retries = 3"

definition cancelled_by :: "real option \<Rightarrow> real \<Rightarrow> bool" where
  "cancelled_by c t = (case c of None \<Rightarrow> False | Some t0 \<Rightarrow> t0 \<le> t)"

definition is_cancelled :: "env \<Rightarrow> worker \<Rightarrow> bool" where
  "is_cancelled e w = cancelled_by (cancel_at e) (clock w)"

definition emit :: "event \<Rightarrow> worker \<Rightarrow> worker" where
  "emit ev w = w\<lparr>trace := trace w @ [ev]\<rparr>"

text \<open>\<open>d[k] = v\<close> on a dict, which keeps the order of insertion.\<close>

fun dict_set :: "'k \<Rightarrow> 'v \<Rightarrow> ('k \<times> 'v) list \<Rightarrow> ('k \<times> 'v) list" where
  "dict_set k v [] = [(k, v)]"
| "dict_set k v ((k', v') # kvs) = (if k = k' then (k, v) # kvs else (k', v') # dict_set k v kvs)"

text \<open>
  The polling loop of \<open>_sleep_with_cancel\<close>, on the clock: it returns the clock reading
  at which the loop is left. Every call site passes a positive \<open>poll_interval\<close> (0.2 or
  0.5); \<open>time.sleep\<close> of a negative number raises, so the loop is not entered there.
\<close>

function sleep_loop :: "real option \<Rightarrow> real \<Rightarrow> real \<Rightarrow> real \<Rightarrow> real" where
  "sleep_loop c poll_interval end_time now =
     (if cancelled_by c now then now
      else let remaining = end_time - now
           in if remaining \<le> 0 then now
              else if poll_interval \<le> 0 then now
              else sleep_loop c poll_interval end_time (now + min poll_interval remaining))"
  by pat_completeness auto
termination
proof (relation "measure (\<lambda>(c, p, e, n). nat \<lceil>(e - n) / p\<rceil>)")
  show "wf (measure (\<lambda>(c, p, e, n). nat \<lceil>(e - n) / p\<rceil>))"
    by simp
next
  fix c :: "real option" and poll_interval end_time now remaining :: real
  assume r: "remaining = end_time - now" and pos: "\<not> remaining \<le> 0"
    and p: "\<not> poll_interval \<le> 0"
  have p0: "0 < poll_interval" and r0: "0 < remaining" using p pos by simp_all
  have "\<lceil>(end_time - (now + min poll_interval remaining)) / poll_interval\<rceil>
          < \<lceil>(end_time - now) / poll_interval\<rceil>"
  proof (cases "poll_interval \<le> remaining")
    case True
    have "(end_time - (now + min poll_interval remaining)) / poll_interval
            = (end_time - now) / poll_interval - 1"
      using True p0 by (simp add: field_simps)
    then show ?thesis by simp
  next
    case False
    then have "min poll_interval remaining = remaining" by simp
    then have "end_time - (now + min poll_interval remaining) = 0"
      using r by simp
    then have "\<lceil>(end_time - (now + min poll_interval remaining)) / poll_interval\<rceil> = 0"
      by simp
    moreover have "0 < \<lceil>(end_time - now) / poll_interval\<rceil>"
      using r r0 p0 by (simp add: less_ceiling_iff)
    ultimately show ?thesis by simp
  qed
  moreover have "0 < \<lceil>(end_time - now) / poll_interval\<rceil>"
    using r r0 p0 by (simp add: less_ceiling_iff)
  ultimately show "((c, poll_interval, end_time, now + min poll_interval remaining),
                    (c, poll_interval, end_time, now)) \<in> measure (\<lambda>(c, p, e, n). nat \<lceil>(e - n) / p\<rceil>)"
    by simp
qed

declare sleep_loop.simps [simp del]

definition sleep_with_cancel ::
    "env \<Rightarrow> real \<Rightarrow> notice option \<Rightarrow> real \<Rightarrow> worker \<Rightarrow> bool \<times> worker" where
  "sleep_with_cancel e total_seconds message poll_interval w =
     (if total_seconds \<le> 0 then (True, w)
      else let w1 = (case message of None \<Rightarrow> w | Some m \<Rightarrow> emit (ProgressUpdated m) w);
               end_time = clock w1 + total_seconds;
               w2 = w1\<lparr>clock := sleep_loop (cancel_at e) poll_interval end_time (clock w1)\<rparr>
           in (\<not> is_cancelled e w2, w2))"

definition wait_for_rate_limit :: "env \<Rightarrow> worker \<Rightarrow> bool \<times> worker" where
  "wait_for_rate_limit e w =
     (let current_time = clock w;
          time_since_last_request = current_time - last_request_time w
      in if time_since_last_request < rate_limit_delay e
         then let wait_time = rate_limit_delay e - time_since_last_request
              in case sleep_with_cancel e wait_time (Some (RateLimiting wait_time)) (1 / 5) w of
                   (False, w1) \<Rightarrow> (False, w1)
                 | (True, w1) \<Rightarrow> (True, w1\<lparr>last_request_time := clock w1\<rparr>)
         else (True, w\<lparr>last_request_time := clock w\<rparr>))"

definition is_transient :: "string \<Rightarrow> bool" where
  "is_transient error =
     (let error_str = lower error
      in contains ''rate limit'' error_str \<or> contains ''quota exceeded'' error_str
         \<or> contains ''429'' error_str)"

definition budget_message :: string where
  "budget_message =
     ''Rate limit exceeded after '' @ string_of_nat max_retries
       @ '' retries. Please wait before trying again.''"

definition handle_rate_limit_error :: "env \<Rightarrow> string \<Rightarrow> string \<Rightarrow> worker \<Rightarrow> bool \<times> worker" where
  "handle_rate_limit_error e error image_path w =
     (if is_transient error
      then let w1 = w\<lparr>retry_count := retry_count w + 1\<rparr>
           in if retry_count w1 \<le> max_retries
              then let backoff_time = 30 * 2 ^ (retry_count w1 - 1)
                   in case sleep_with_cancel e (real backoff_time)
                             (Some (RetryingIn backoff_time (retry_count w1) max_retries))
                             (1 / 2) w1 of
                        (False, w2) \<Rightarrow> (False, w2)
                      | (True, w2) \<Rightarrow> (True, w2)
              else (False, emit (ErrorOccurred budget_message image_path) w1)
      else (False, w))"

definition failed_message :: "string \<Rightarrow> string \<Rightarrow> string" where
  "failed_message image_path error =
     ''Failed to process '' @ basename image_path @ '': '' @ error"

text \<open>
  One pass through the body of the \<open>while\<close> loop of \<open>run\<close> for item \<open>i\<close> (counted from 1),
  in two parts: \<open>pace\<close> is the \<open>if i > 1\<close> block that opens the \<open>try\<close>, \<open>dispatch\<close> is
  the rest of the \<open>try\<close> with its \<open>except\<close> handler. The result is \<open>True\<close> when the pass
  ends in \<open>continue\<close>, \<open>False\<close> when it ends in \<open>break\<close>.
\<close>

definition pace :: "env \<Rightarrow> nat \<Rightarrow> worker \<Rightarrow> bool \<times> worker" where
  "pace e i w =
     (if i > 1
      then (case wait_for_rate_limit e w of
              (False, w1) \<Rightarrow> (False, w1)
            | (True, w1) \<Rightarrow> if is_cancelled e w1 then (False, w1) else (True, w1))
      else (True, w))"

definition output_path_of :: "env \<Rightarrow> string \<Rightarrow> string" where
  "output_path_of e image_path =
     (let image_name = fst (splitext (basename image_path))
      in join (output_dir e) (image_name @ ''_gemini.jpg''))"

definition call_service :: "env \<Rightarrow> string \<Rightarrow> worker \<Rightarrow> outcome \<times> worker" where
  "call_service e image_path w =
     (let (duration, oc) = service e (calls w) image_path;
          w1 = emit (Dispatch (clock w) image_path (output_path_of e image_path)) w
      in (oc, w1\<lparr>calls := calls w + 1, clock := clock w + duration\<rparr>))"

definition dispatch :: "env \<Rightarrow> nat \<Rightarrow> nat \<Rightarrow> string \<Rightarrow> worker \<Rightarrow> bool \<times> worker" where
  "dispatch e i n_total image_path w =
     (let w1 = emit (ProgressUpdated (Processing i n_total (basename image_path))) w;
          output_path = output_path_of e image_path
      in case call_service e image_path w1 of
           (Returned, w2) \<Rightarrow>
             let w3 = emit (ImageProcessed image_path output_path) w2
             in (False, w3\<lparr>results := dict_set image_path (Success output_path) (results w3)\<rparr>)
         | (Raised error, w2) \<Rightarrow>
             if is_cancelled e w2 then (False, w2)
             else case handle_rate_limit_error e error image_path w2 of
                    (handled, w3) \<Rightarrow>
                      if is_cancelled e w3 then (False, w3)
                      else if handled then (True, w3)
                      else let w4 = emit (ErrorOccurred (failed_message image_path error)
                                            image_path) w3
                           in (False, w4\<lparr>results := dict_set image_path (Failure error)
                                                       (results w4)\<rparr>))"

definition attempt :: "env \<Rightarrow> nat \<Rightarrow> nat \<Rightarrow> string \<Rightarrow> worker \<Rightarrow> bool \<times> worker" where
  "attempt e i n_total image_path w =
     (case pace e i w of
        (False, w1) \<Rightarrow> (False, w1)
      | (True, w1) \<Rightarrow> dispatch e i n_total image_path w1)"

subsection \<open>What the waits leave alone\<close>

lemma sleep_with_cancel_frame:
  assumes "sleep_with_cancel e t m p w = (ok, w')"
  shows "retry_count w' = retry_count w" and "results w' = results w"
    and "calls w' = calls w" and "last_request_time w' = last_request_time w"
    and "dispatches (trace w') = dispatches (trace w)"
  using assms
  by (auto simp: sleep_with_cancel_def emit_def Let_def split: if_splits option.splits)

lemma wait_for_rate_limit_frame:
  assumes "wait_for_rate_limit e w = (ok, w')"
  shows "retry_count w' = retry_count w" and "results w' = results w"
    and "calls w' = calls w" and "dispatches (trace w') = dispatches (trace w)"
  using assms
  by (auto simp: wait_for_rate_limit_def Let_def
      split: if_splits prod.splits bool.splits dest: sleep_with_cancel_frame)

lemma handle_rate_limit_error_handled:
  assumes "handle_rate_limit_error e error image_path w = (True, w')"
  shows "is_transient error" and "retry_count w' = Suc (retry_count w)"
    and "retry_count w' \<le> max_retries"
  using assms
  by (auto simp: handle_rate_limit_error_def Let_def
      split: if_splits prod.splits bool.splits dest: sleep_with_cancel_frame)

lemma pace_frame:
  assumes "pace e i w = (ok, w')"
  shows "retry_count w' = retry_count w" and "results w' = results w"
    and "calls w' = calls w" and "dispatches (trace w') = dispatches (trace w)"
  using assms
  by (auto simp: pace_def split: if_splits prod.splits bool.splits
      dest: wait_for_rate_limit_frame)

lemma call_service_frame:
  assumes "call_service e image_path w = (oc, w')"
  shows "retry_count w' = retry_count w" and "results w' = results w"
    and "calls w' = Suc (calls w)"
  using assms
  by (auto simp: call_service_def emit_def Let_def split: prod.splits)

lemma dispatch_continue:
  assumes "dispatch e i n_total image_path w = (True, w')"
  shows "retry_count w' = Suc (retry_count w)"
  using assms
  by (auto simp: dispatch_def Let_def emit_def
      split: if_splits prod.splits outcome.splits
      dest!: call_service_frame(1) handle_rate_limit_error_handled(2))

lemma attempt_continue:
  assumes "attempt e i n_total image_path w = (True, w')"
  shows "retry_count w' = Suc (retry_count w)"
  using assms
  by (auto simp: attempt_def split: prod.splits bool.splits
      dest!: pace_frame(1) dispatch_continue)

subsection \<open>The loops of \<open>run\<close>\<close>

text \<open>The \<open>while self.retry_count <= self.max_retries\<close> loop for one item.\<close>

function attempt_loop :: "env \<Rightarrow> nat \<Rightarrow> nat \<Rightarrow> string \<Rightarrow> worker \<Rightarrow> worker" where
  "attempt_loop e i n_total image_path w =
     (if retry_count w \<le> max_retries
      then (case attempt e i n_total image_path w of
              (True, w') \<Rightarrow> attempt_loop e i n_total image_path w'
            | (False, w') \<Rightarrow> w')
      else w)"
  by pat_completeness auto
termination
  apply (relation "measure (\<lambda>(e, i, n, p, w). Suc max_retries - retry_count w)")
   apply simp
  apply (auto dest!: attempt_continue [OF sym])
  done

declare attempt_loop.simps [simp del]

text \<open>The \<open>for i, image_path in enumerate(self.image_paths, 1)\<close> loop.\<close>

fun run_items :: "env \<Rightarrow> nat \<Rightarrow> nat \<Rightarrow> string list \<Rightarrow> worker \<Rightarrow> worker" where
  "run_items e n_total i [] w = w"
| "run_items e n_total i (image_path # rest) w =
     (if is_cancelled e w then w
      else let w1 = attempt_loop e i n_total image_path (w\<lparr>retry_count := 0\<rparr>)
           in if is_cancelled e w1 then w1
              else run_items e n_total (i + 1) rest w1)"

definition initial :: "env \<Rightarrow> worker" where
  "initial e = \<lparr>clock = start_time e, calls = 0, last_request_time = 0, retry_count = 0,
                 results = [], trace = []\<rparr>"

definition run :: "env \<Rightarrow> string list \<Rightarrow> worker" where
  "run e image_paths =
     (let w = run_items e (length image_paths) 1 image_paths (initial e);
          w1 = emit (ProgressUpdated Complete) w
      in emit (FinishedAll (results w1)) w1)"

section \<open>Facts about the worker\<close>

subsection \<open>Sleeping without a cancellation\<close>

lemma cancelled_by_mono: "cancelled_by c s \<Longrightarrow> s \<le> t \<Longrightarrow> cancelled_by c t"
  by (auto simp: cancelled_by_def split: option.splits)

lemma sleep_loop_cancelled: "cancelled_by c now \<Longrightarrow> sleep_loop c p end_time now = now"
  by (simp add: sleep_loop.simps)

lemma sleep_loop_step:
  "\<not> cancelled_by c now \<Longrightarrow> now < end_time \<Longrightarrow> 0 < p \<Longrightarrow>
     sleep_loop c p end_time now = sleep_loop c p end_time (now + min p (end_time - now))"
  by (subst sleep_loop.simps) (simp add: Let_def)

lemma sleep_loop_completes:
  "0 < p \<Longrightarrow> now \<le> end_time \<Longrightarrow> \<not> cancelled_by c end_time \<Longrightarrow>
     sleep_loop c p end_time now = end_time"
proof (induction c p end_time now rule: sleep_loop.induct)
  case (1 c p end_time now)
  have nc: "\<not> cancelled_by c now"
    using 1 cancelled_by_mono by blast
  show ?case
  proof (cases "now < end_time")
    case True
    have "sleep_loop c p end_time (now + min p (end_time - now)) = end_time"
      using 1 nc True by (intro "1.IH") auto
    then show ?thesis using sleep_loop_step [OF nc True] 1 by simp
  next
    case False
    then have "now = end_time" using 1 by simp
    then show ?thesis using nc by (subst sleep_loop.simps) simp
  qed
qed

lemma sleep_with_cancel_completes:
  assumes "0 < total_seconds" "0 < p"
    and "\<not> cancelled_by (cancel_at e) (clock w + total_seconds)"
  shows "sleep_with_cancel e total_seconds (Some m) p w
           = (True, w\<lparr>clock := clock w + total_seconds, trace := trace w @ [ProgressUpdated m]\<rparr>)"
  using assms
  by (simp add: sleep_with_cancel_def emit_def Let_def is_cancelled_def sleep_loop_completes)

lemma handle_transient_retry:
  assumes "is_transient error" and "retry_count w < max_retries"
    and "\<not> cancelled_by (cancel_at e) (clock w + 30 * 2 ^ retry_count w)"
  shows "handle_rate_limit_error e error image_path w
           = (True, w\<lparr>clock := clock w + 30 * 2 ^ retry_count w,
                       retry_count := Suc (retry_count w),
                       trace := trace w @ [ProgressUpdated
                         (RetryingIn (30 * 2 ^ retry_count w) (Suc (retry_count w)) max_retries)]\<rparr>)"
  using assms
  by (simp add: handle_rate_limit_error_def Let_def sleep_with_cancel_completes)

lemma handle_exhausted:
  assumes "is_transient error" and "retry_count w \<ge> max_retries"
  shows "handle_rate_limit_error e error image_path w
           = (False, w\<lparr>retry_count := Suc (retry_count w),
                        trace := trace w @ [ErrorOccurred budget_message image_path]\<rparr>)"
  using assms
  by (simp add: handle_rate_limit_error_def Let_def emit_def)

lemma handle_permanent:
  "\<not> is_transient error \<Longrightarrow> handle_rate_limit_error e error image_path w = (False, w)"
  by (simp add: handle_rate_limit_error_def)

subsection \<open>Single passes, under their conditions\<close>

lemma call_service_eq:
  "service e (calls w) image_path = (d, oc) \<Longrightarrow>
     call_service e image_path w
       = (oc, w\<lparr>clock := clock w + d, calls := Suc (calls w),
                 trace := trace w @ [Dispatch (clock w) image_path (output_path_of e image_path)]\<rparr>)"
  by (simp add: call_service_def emit_def)

lemma dispatch_returned:
  assumes "service e (calls w) image_path = (d, Returned)"
  shows "dispatch e i n_total image_path w
           = (False, w\<lparr>clock := clock w + d, calls := Suc (calls w),
                results := dict_set image_path (Success (output_path_of e image_path)) (results w),
                trace := trace w @ [ProgressUpdated (Processing i n_total (basename image_path)),
                          Dispatch (clock w) image_path (output_path_of e image_path),
                          ImageProcessed image_path (output_path_of e image_path)]\<rparr>)"
  using assms by (simp add: dispatch_def call_service_eq emit_def Let_def)

lemma dispatch_permanent:
  assumes "service e (calls w) image_path = (d, Raised error)"
    and "\<not> is_transient error"
    and "\<not> cancelled_by (cancel_at e) (clock w + d)"
  shows "dispatch e i n_total image_path w
           = (False, w\<lparr>clock := clock w + d, calls := Suc (calls w),
                results := dict_set image_path (Failure error) (results w),
                trace := trace w @ [ProgressUpdated (Processing i n_total (basename image_path)),
                          Dispatch (clock w) image_path (output_path_of e image_path),
                          ErrorOccurred (failed_message image_path error) image_path]\<rparr>)"
  using assms
  by (simp add: dispatch_def call_service_eq emit_def Let_def is_cancelled_def handle_permanent)

lemma dispatch_transient_retry:
  assumes "service e (calls w) image_path = (d, Raised error)"
    and "is_transient error" and "retry_count w < max_retries"
    and "\<not> cancelled_by (cancel_at e) (clock w + d + 30 * 2 ^ retry_count w)"
  shows "dispatch e i n_total image_path w
           = (True, w\<lparr>clock := clock w + d + 30 * 2 ^ retry_count w, calls := Suc (calls w),
                retry_count := Suc (retry_count w),
                trace := trace w @ [ProgressUpdated (Processing i n_total (basename image_path)),
                          Dispatch (clock w) image_path (output_path_of e image_path),
                          ProgressUpdated (RetryingIn (30 * 2 ^ retry_count w)
                            (Suc (retry_count w)) max_retries)]\<rparr>)"
proof -
  have "\<not> cancelled_by (cancel_at e) (clock w + d)"
    using assms(4) cancelled_by_mono [of "cancel_at e" "clock w + d"
        "clock w + d + 30 * 2 ^ retry_count w"] by auto
  then show ?thesis
    using assms
    by (simp add: dispatch_def call_service_eq emit_def Let_def is_cancelled_def
        handle_transient_retry)
qed

lemma dispatch_exhausted:
  assumes "service e (calls w) image_path = (d, Raised error)"
    and "is_transient error" and "max_retries \<le> retry_count w"
    and "\<not> cancelled_by (cancel_at e) (clock w + d)"
  shows "dispatch e i n_total image_path w
           = (False, w\<lparr>clock := clock w + d, calls := Suc (calls w),
                retry_count := Suc (retry_count w),
                results := dict_set image_path (Failure error) (results w),
                trace := trace w @ [ProgressUpdated (Processing i n_total (basename image_path)),
                          Dispatch (clock w) image_path (output_path_of e image_path),
                          ErrorOccurred budget_message image_path,
                          ErrorOccurred (failed_message image_path error) image_path]\<rparr>)"
  using assms
  by (simp add: dispatch_def call_service_eq emit_def Let_def is_cancelled_def handle_exhausted)

lemma attempt_loop_unfold:
  "attempt_loop e i n_total image_path w =
     (if retry_count w \<le> max_retries
      then (if fst (attempt e i n_total image_path w)
            then attempt_loop e i n_total image_path (snd (attempt e i n_total image_path w))
            else snd (attempt e i n_total image_path w))
      else w)"
  by (subst attempt_loop.simps) (simp split: prod.splits bool.splits)


subsection \<open>An item that is throttled on every call\<close>

lemma pace_first: "pace e (Suc 0) w = (True, w)"
  by (simp add: pace_def)

lemma not_cancelled_None [simp]: "\<not> cancelled_by None t"
  by (simp add: cancelled_by_def)

lemma wait_for_rate_limit_uncancelled:
  assumes "cancel_at e = None"
  shows "\<exists>w'. wait_for_rate_limit e w = (True, w') \<and> retry_count w' = retry_count w
           \<and> calls w' = calls w \<and> results w' = results w
           \<and> backoffs (trace w') = backoffs (trace w)
           \<and> errors_of (trace w') = errors_of (trace w)"
proof (cases "clock w - last_request_time w < rate_limit_delay e")
  case True
  then have "0 < rate_limit_delay e - (clock w - last_request_time w)" by simp
  then show ?thesis
    using True assms
    by (simp add: wait_for_rate_limit_def Let_def sleep_with_cancel_completes)
next
  case False
  then show ?thesis by (simp add: wait_for_rate_limit_def Let_def)
qed

lemma pace_uncancelled:
  assumes "cancel_at e = None"
  shows "\<exists>w'. pace e i w = (True, w') \<and> retry_count w' = retry_count w
           \<and> calls w' = calls w \<and> results w' = results w
           \<and> backoffs (trace w') = backoffs (trace w)
           \<and> errors_of (trace w') = errors_of (trace w)"
proof (cases "i > 1")
  case True
  obtain w' where "wait_for_rate_limit e w = (True, w')" "retry_count w' = retry_count w"
    "calls w' = calls w" "results w' = results w" "backoffs (trace w') = backoffs (trace w)"
    "errors_of (trace w') = errors_of (trace w)"
    using wait_for_rate_limit_uncancelled [OF assms] by blast
  then show ?thesis using True assms by (simp add: pace_def is_cancelled_def)
next
  case False
  then show ?thesis by (simp add: pace_def)
qed

lemma budget_message_eq:
  "budget_message = ''Rate limit exceeded after 3 retries. Please wait before trying again.''"
  by (simp add: budget_message_def max_retries_def char_of_eq_iff)

lemma budget_vs_failed: "budget_message \<noteq> failed_message image_path error"
  by (simp add: budget_message_eq failed_message_def)

lemma attempt_throttled_retry:
  assumes nc: "cancel_at e = None"
    and svc: "\<And>k. service e k image_path = (dur k, Raised (err k))"
    and tr: "\<And>k. is_transient (err k)"
    and rc: "retry_count w < max_retries"
  shows "\<exists>w'. attempt e i n_total image_path w = (True, w')
           \<and> retry_count w' = Suc (retry_count w) \<and> calls w' = Suc (calls w)
           \<and> results w' = results w
           \<and> backoffs (trace w') = backoffs (trace w) @ [30 * 2 ^ retry_count w]
           \<and> errors_of (trace w') = errors_of (trace w)"
proof -
  obtain w1 where p: "pace e i w = (True, w1)" and f: "retry_count w1 = retry_count w"
    "calls w1 = calls w" "results w1 = results w" "backoffs (trace w1) = backoffs (trace w)"
    "errors_of (trace w1) = errors_of (trace w)"
    using pace_uncancelled [OF nc] by blast
  have "retry_count w1 < max_retries" using rc f by simp
  from dispatch_transient_retry [OF svc tr this, of i n_total] nc
  show ?thesis using p f by (simp add: attempt_def)
qed

lemma attempt_throttled_exhausted:
  assumes nc: "cancel_at e = None"
    and svc: "\<And>k. service e k image_path = (dur k, Raised (err k))"
    and tr: "\<And>k. is_transient (err k)"
    and rc: "retry_count w = max_retries"
  shows "\<exists>w'. attempt e i n_total image_path w = (False, w')
           \<and> calls w' = Suc (calls w)
           \<and> results w' = dict_set image_path (Failure (err (calls w))) (results w)
           \<and> backoffs (trace w') = backoffs (trace w)
           \<and> errors_of (trace w') = errors_of (trace w)
                @ [(budget_message, image_path),
                   (failed_message image_path (err (calls w)), image_path)]"
proof -
  obtain w1 where p: "pace e i w = (True, w1)" and f: "retry_count w1 = retry_count w"
    "calls w1 = calls w" "results w1 = results w" "backoffs (trace w1) = backoffs (trace w)"
    "errors_of (trace w1) = errors_of (trace w)"
    using pace_uncancelled [OF nc] by blast
  have "max_retries \<le> retry_count w1" using rc f by simp
  from dispatch_exhausted [OF svc tr this, of i n_total] nc
  show ?thesis using p f by (simp add: attempt_def)
qed

lemma throttled_item:
  assumes nc: "cancel_at e = None"
    and svc: "\<And>k. service e k image_path = (dur k, Raised (err k))"
    and tr: "\<And>k. is_transient (err k)"
    and rc: "retry_count w = 0"
  shows "calls (attempt_loop e i n_total image_path w) = calls w + 4
         \<and> results (attempt_loop e i n_total image_path w)
             = dict_set image_path (Failure (err (calls w + 3))) (results w)
         \<and> backoffs (trace (attempt_loop e i n_total image_path w))
             = backoffs (trace w) @ [30, 60, 120]
         \<and> errors_of (trace (attempt_loop e i n_total image_path w))
             = errors_of (trace w)
                @ [(budget_message, image_path),
                   (failed_message image_path (err (calls w + 3)), image_path)]"
proof -
  note step = attempt_throttled_retry [OF nc svc tr]
  have r0: "retry_count w < max_retries" using rc by (simp add: max_retries_def)
  obtain w1 where a1: "attempt e i n_total image_path w = (True, w1)"
    and f1: "retry_count w1 = 1" "calls w1 = calls w + 1" "results w1 = results w"
      "backoffs (trace w1) = backoffs (trace w) @ [30]"
      "errors_of (trace w1) = errors_of (trace w)"
    using step [OF r0, of i n_total] rc by auto
  have r1: "retry_count w1 < max_retries" using f1 by (simp add: max_retries_def)
  obtain w2 where a2: "attempt e i n_total image_path w1 = (True, w2)"
    and f2: "retry_count w2 = 2" "calls w2 = calls w + 2" "results w2 = results w"
      "backoffs (trace w2) = backoffs (trace w) @ [30, 60]"
      "errors_of (trace w2) = errors_of (trace w)"
    using step [OF r1, of i n_total] f1 by auto
  have r2: "retry_count w2 < max_retries" using f2 by (simp add: max_retries_def)
  obtain w3 where a3: "attempt e i n_total image_path w2 = (True, w3)"
    and f3: "retry_count w3 = 3" "calls w3 = calls w + 3" "results w3 = results w"
      "backoffs (trace w3) = backoffs (trace w) @ [30, 60, 120]"
      "errors_of (trace w3) = errors_of (trace w)"
    using step [OF r2, of i n_total] f2 by auto
  have r3: "retry_count w3 = max_retries" using f3 by (simp add: max_retries_def)
  obtain w4 where a4: "attempt e i n_total image_path w3 = (False, w4)"
    and f4: "calls w4 = calls w + 4"
      "results w4 = dict_set image_path (Failure (err (calls w + 3))) (results w)"
      "backoffs (trace w4) = backoffs (trace w) @ [30, 60, 120]"
      "errors_of (trace w4) = errors_of (trace w)
         @ [(budget_message, image_path),
            (failed_message image_path (err (calls w + 3)), image_path)]"
    using attempt_throttled_exhausted [OF nc svc tr r3, of i n_total] f3 by auto
  have "attempt_loop e i n_total image_path w = attempt_loop e i n_total image_path w1"
    using a1 rc by (subst attempt_loop_unfold) (simp add: max_retries_def)
  also have "\<dots> = attempt_loop e i n_total image_path w2"
    using a2 f1 by (subst attempt_loop_unfold) (simp add: max_retries_def)
  also have "\<dots> = attempt_loop e i n_total image_path w3"
    using a3 f2 by (subst attempt_loop_unfold) (simp add: max_retries_def)
  also have "\<dots> = w4"
    using a4 f3 by (subst attempt_loop_unfold) (simp add: max_retries_def)
  finally show ?thesis using f4 by simp
qed

lemma results_emit [simp]: "results (emit ev w) = results w"
  by (simp add: emit_def)

lemma trace_emit [simp]: "trace (emit ev w) = trace w @ [ev]"
  by (simp add: emit_def)

lemma run_single:
  "cancel_at e = None \<Longrightarrow>
     run e [image_path]
       = (let w = attempt_loop e 1 1 image_path (initial e\<lparr>retry_count := 0\<rparr>);
              w1 = emit (ProgressUpdated Complete) w
          in emit (FinishedAll (results w1)) w1)"
  by (simp add: run_def is_cancelled_def Let_def)

subsection \<open>Concrete runs\<close>

text \<open>
  A free-tier run (6 seconds between requests) started when the clock reads 1000, writing
  to \<open>out\<close>: in \<open>quick_env\<close> every call of the service returns after one second, in
  \<open>failing_env error\<close> every call fails after one second with the given error, a 429 in
  \<open>throttled_env\<close>.
\<close>

definition quick_env :: env where
  "quick_env = \<lparr>rate_limit_delay = 6, output_dir = ''out'', start_time = 1000,
                 cancel_at = None, service = (\<lambda>n p. (1, Returned))\<rparr>"

definition failing_env :: "string \<Rightarrow> env" where
  "failing_env error = \<lparr>rate_limit_delay = 6, output_dir = ''out'', start_time = 1000,
                         cancel_at = None, service = (\<lambda>n p. (1, Raised error))\<rparr>"

definition throttled_env :: env where
  "throttled_env = failing_env ''429 Too Many Requests''"

lemma quick_env_simps [simp]:
  "cancel_at quick_env = None" "rate_limit_delay quick_env = 6"
  "output_dir quick_env = ''out''" "start_time quick_env = 1000"
  "service quick_env n p = (1, Returned)"
  by (simp_all add: quick_env_def)

lemma failing_env_simps [simp]:
  "cancel_at (failing_env error) = None" "rate_limit_delay (failing_env error) = 6"
  "output_dir (failing_env error) = ''out''" "start_time (failing_env error) = 1000"
  "service (failing_env error) n p = (1, Raised error)"
  by (simp_all add: failing_env_def)

lemma throttled_env_simps [simp]:
  "cancel_at throttled_env = None" "rate_limit_delay throttled_env = 6"
  "output_dir throttled_env = ''out''" "start_time throttled_env = 1000"
  "service throttled_env n p = (1, Raised ''429 Too Many Requests'')"
  by (simp_all add: throttled_env_def)

lemma lower_simps [simp]:
  "lower [] = []" "lower (c # cs) = lower_char c # lower cs"
  by (simp_all add: lower_def)

lemma is_transient_429: "is_transient ''429 Too Many Requests''"
  by (simp add: is_transient_def lower_char_def char_of_eq_iff)

section \<open>Reporting an exhausted retry budget\<close>

lemma map_of_dict_set: "map_of (dict_set k v kvs) k = Some v"
  by (induction kvs) auto

text \<open>
  An item whose every call fails with a transient error, in a run that is not cancelled:
  the fourth error is reported by two error events, the handler's own, which names the
  exhausted budget, and then the one \<open>run\<close> emits for every failed item. The two messages
  differ, and the item is recorded as failed with the text of the last error.
\<close>

lemma exhausted_budget_two_errors:
  assumes "cancel_at e = None"
    and "\<And>k. service e k image_path = (dur k, Raised (err k))"
    and "\<And>k. is_transient (err k)"
  shows "errors_of (trace (attempt_loop e i n_total image_path (w\<lparr>retry_count := 0\<rparr>)))
           = errors_of (trace w)
              @ [(budget_message, image_path),
                 (failed_message image_path (err (calls w + 3)), image_path)]
         \<and> budget_message \<noteq> failed_message image_path (err (calls w + 3))
         \<and> map_of (results (attempt_loop e i n_total image_path (w\<lparr>retry_count := 0\<rparr>)))
               image_path = Some (Failure (err (calls w + 3)))
         \<and> errors_of (trace (run e [image_path]))
             = [(budget_message, image_path), (failed_message image_path (err 3), image_path)]
         \<and> last (trace (run e [image_path])) = FinishedAll [(image_path, Failure (err 3))]"
proof -
  have rc: "retry_count (w\<lparr>retry_count := 0\<rparr>) = 0" for w :: worker by simp
  note item = throttled_item [OF assms rc, of i n_total w, simplified]
  note first = throttled_item [OF assms rc, of 1 1 "initial e", simplified]
  have i0: "calls (initial e) = 0" "results (initial e) = []" "trace (initial e) = []"
    by (simp_all add: initial_def)
  show ?thesis
    using item first i0
    by (simp add: run_single [OF assms(1)] Let_def budget_vs_failed map_of_dict_set)
qed


section \<open>Pacing\<close>

text \<open>
  A pacing wait that completes ends no earlier than \<open>rate_limit_delay\<close> seconds after the
  recorded time of the last request, and records the clock as the new one.
\<close>

lemma sleep_loop_done:
  "0 < p \<Longrightarrow> \<not> cancelled_by c (sleep_loop c p end_time now) \<Longrightarrow>
     end_time \<le> sleep_loop c p end_time now"
proof (induction c p end_time now rule: sleep_loop.induct)
  case (1 c p end_time now)
  show ?case
  proof (cases "cancelled_by c now")
    case True
    then show ?thesis using "1.prems" by (simp add: sleep_loop_cancelled)
  next
    case nc: False
    show ?thesis
    proof (cases "now < end_time")
      case True
      then show ?thesis
        using 1 nc sleep_loop_step [OF nc True, of p] by simp
    next
      case False
      then show ?thesis using nc by (subst sleep_loop.simps) simp
    qed
  qed
qed

lemma wait_for_rate_limit_paces:
  assumes "wait_for_rate_limit e w = (True, w')"
  shows "last_request_time w' = clock w'"
    and "last_request_time w + rate_limit_delay e \<le> clock w'"
  using assms sleep_loop_done [of "1 / 5" "cancel_at e"
      "clock w + (rate_limit_delay e - (clock w - last_request_time w))" "clock w"]
  by (auto simp: wait_for_rate_limit_def sleep_with_cancel_def Let_def emit_def is_cancelled_def
      split: if_splits prod.splits bool.splits)

text \<open>
  Claim C1. The claim asks that no two calls of the service are entered less than
  \<open>rate_limit_delay\<close> seconds apart. In this run of three items the delay is 6 seconds and
  every call returns after one second. The first call is entered at 1000 without a wait,
  as the claim says, but the wait is skipped as a whole for the first item, so no request
  time is recorded for it (\<open>last_request_time\<close> stays 0): the second call is entered at
  1001, one second after the first. Only the third call is paced, 6 seconds after the
  second.
\<close>

theorem second_dispatch_not_paced:
  "rate_limit_delay quick_env = 6
   \<and> dispatches (trace (run quick_env [''a.jpg'', ''b.jpg'', ''c.jpg'']))
       = [(1000, ''a.jpg''), (1001, ''b.jpg''), (1007, ''c.jpg'')]"
  by (simp add: run_def initial_def Let_def is_cancelled_def attempt_loop_unfold attempt_def
      pace_def wait_for_rate_limit_def sleep_with_cancel_completes max_retries_def
      dispatch_returned)

section \<open>Cancellation\<close>

text \<open>
  Two facts every state of a run keeps. \<open>sound\<close>: no call of the service was entered at a
  moment the cancellation flag was set, and every item with an entry in \<open>results\<close> has had a
  call. \<open>timely\<close>: the calls were entered in the order of the clock, none later than the
  present.
\<close>

definition sound :: "env \<Rightarrow> worker \<Rightarrow> bool" where
  "sound e w \<longleftrightarrow>
     list_all (\<lambda>tp. \<not> cancelled_by (cancel_at e) (fst tp)) (dispatches (trace w))
     \<and> fst ` set (results w) \<subseteq> snd ` set (dispatches (trace w))"

lemma keys_dict_set: "fst ` set (dict_set k v kvs) = insert k (fst ` set kvs)"
  by (induction k v kvs rule: dict_set.induct) (simp_all add: insert_commute)

lemma handle_rate_limit_error_frame:
  assumes "handle_rate_limit_error e error image_path w = (h, w')"
  shows "results w' = results w" and "dispatches (trace w') = dispatches (trace w)"
    and "calls w' = calls w"
  using assms
  by (auto simp: handle_rate_limit_error_def Let_def emit_def
      split: if_splits prod.splits bool.splits dest: sleep_with_cancel_frame)

lemma call_service_trace:
  assumes "call_service e image_path w = (oc, w')"
  shows "trace w' = trace w @ [Dispatch (clock w) image_path (output_path_of e image_path)]"
  using assms by (auto simp: call_service_def emit_def Let_def split: prod.splits)

lemma pace_uncancelled_after:
  assumes "pace e i w = (True, w')" and "\<not> is_cancelled e w"
  shows "\<not> is_cancelled e w'"
  using assms by (auto simp: pace_def split: if_splits prod.splits bool.splits)

lemma sound_frame:
  assumes "sound e w" and "results w' = results w"
    and "dispatches (trace w') = dispatches (trace w)"
  shows "sound e w'"
  using assms by (simp add: sound_def)

lemma dispatch_sound:
  assumes "dispatch e i n_total image_path w = (b, w')" and "sound e w"
    and "\<not> is_cancelled e w"
  shows "sound e w'" and "b \<Longrightarrow> \<not> is_cancelled e w'"
proof -
  define w1 where "w1 = emit (ProgressUpdated (Processing i n_total (basename image_path))) w"
  obtain oc w2 where cs: "call_service e image_path w1 = (oc, w2)" by fastforce
  have r2: "results w2 = results w"
    using call_service_frame(2) [OF cs] by (simp add: w1_def emit_def)
  have d2: "dispatches (trace w2) = dispatches (trace w) @ [(clock w, image_path)]"
    using call_service_trace [OF cs] by (simp add: w1_def emit_def)
  have s2: "sound e (w2\<lparr>results := dict_set image_path r (results w2)\<rparr>)"
    and s2': "sound e w2" for r
    using assms(2,3) r2 d2
    by (simp_all add: sound_def keys_dict_set is_cancelled_def subset_insertI2)
  have "sound e w' \<and> (b \<longrightarrow> \<not> is_cancelled e w')"
  proof (cases oc)
    case Returned
    then have "w' = (emit (ImageProcessed image_path (output_path_of e image_path)) w2)
                 \<lparr>results := dict_set image_path (Success (output_path_of e image_path))
                     (results (emit (ImageProcessed image_path (output_path_of e image_path)) w2))\<rparr>"
      and "\<not> b"
      using assms(1) cs by (simp_all add: dispatch_def w1_def Let_def)
    moreover have "sound e ((emit ev w2)\<lparr>results := dict_set image_path r (results (emit ev w2))\<rparr>)"
      if "dispatches [ev] = []" for ev r
      using s2 [of r] that by (simp add: sound_def emit_def)
    ultimately show ?thesis by simp
  next
    case (Raised error)
    show ?thesis
    proof (cases "is_cancelled e w2")
      case True
      then have "w' = w2" "\<not> b"
        using assms(1) cs Raised by (simp_all add: dispatch_def w1_def Let_def)
      then show ?thesis using s2' by simp
    next
      case nc2: False
      obtain h w3 where h: "handle_rate_limit_error e error image_path w2 = (h, w3)"
        by fastforce
      have s3: "sound e w3"
        using sound_frame [OF s2' handle_rate_limit_error_frame(1,2) [OF h]] .
      show ?thesis
      proof (cases "is_cancelled e w3")
        case True
        then have "w' = w3" "\<not> b"
          using assms(1) cs Raised nc2 h by (simp_all add: dispatch_def w1_def Let_def)
        then show ?thesis using s3 by simp
      next
        case nc3: False
        show ?thesis
        proof (cases h)
          case True
          then have "w' = w3" "b"
            using assms(1) cs Raised nc2 nc3 h by (simp_all add: dispatch_def w1_def Let_def)
          then show ?thesis using s3 nc3 by simp
        next
          case False
          then have w': "w' = (emit (ErrorOccurred (failed_message image_path error) image_path) w3)
                 \<lparr>results := dict_set image_path (Failure error)
                     (results (emit (ErrorOccurred (failed_message image_path error) image_path) w3))\<rparr>"
            and "\<not> b"
            using assms(1) cs Raised nc2 nc3 h by (simp_all add: dispatch_def w1_def Let_def)
          have "fst ` set (results w3) \<subseteq> snd ` set (dispatches (trace w3))"
            using s3 by (simp add: sound_def)
          moreover have "image_path \<in> snd ` set (dispatches (trace w3))"
            using handle_rate_limit_error_frame(2) [OF h] d2 by simp
          ultimately have "sound e w'"
            using s3 unfolding w' by (simp add: sound_def emit_def keys_dict_set)
          then show ?thesis using \<open>\<not> b\<close> by simp
        qed
      qed
    qed
  qed
  then show "sound e w'" and "b \<Longrightarrow> \<not> is_cancelled e w'" by simp_all
qed

lemma attempt_sound:
  assumes "attempt e i n_total image_path w = (b, w')" and "sound e w"
    and "\<not> is_cancelled e w"
  shows "sound e w'" and "b \<Longrightarrow> \<not> is_cancelled e w'"
proof -
  obtain ok w1 where p: "pace e i w = (ok, w1)" by fastforce
  have s1: "sound e w1"
    using sound_frame [OF assms(2) pace_frame(2,4) [OF p]] .
  have "sound e w' \<and> (b \<longrightarrow> \<not> is_cancelled e w')"
  proof (cases ok)
    case True
    then have "dispatch e i n_total image_path w1 = (b, w')"
      using assms(1) p by (simp add: attempt_def)
    moreover have "pace e i w = (True, w1)" using p True by simp
    then have "\<not> is_cancelled e w1"
      using assms(3) by (rule pace_uncancelled_after)
    ultimately show ?thesis using dispatch_sound s1 by blast
  next
    case False
    then have "w' = w1" "\<not> b" using assms(1) p by (simp_all add: attempt_def)
    then show ?thesis using s1 by simp
  qed
  then show "sound e w'" and "b \<Longrightarrow> \<not> is_cancelled e w'" by simp_all
qed

lemma attempt_loop_sound:
  "sound e w \<Longrightarrow> \<not> is_cancelled e w \<Longrightarrow> sound e (attempt_loop e i n_total image_path w)"
proof (induction e i n_total image_path w rule: attempt_loop.induct)
  case (1 e i n_total image_path w)
  obtain b w' where a: "attempt e i n_total image_path w = (b, w')" by fastforce
  note s = attempt_sound [OF a "1.prems"]
  show ?case
  proof (cases "retry_count w \<le> max_retries")
    case le: True
    show ?thesis
    proof (cases b)
      case True
      have "sound e (attempt_loop e i n_total image_path w')"
        using "1.IH" [OF le] a True s by simp
      then show ?thesis using a True le by (subst attempt_loop_unfold) simp
    next
      case False
      then show ?thesis using a le s(1) by (subst attempt_loop_unfold) simp
    qed
  next
    case False
    then show ?thesis using "1.prems" by (subst attempt_loop_unfold) simp
  qed
qed

lemma run_items_sound:
  "sound e w \<Longrightarrow> sound e (run_items e n_total i image_paths w)"
proof (induction image_paths arbitrary: i w)
  case Nil
  then show ?case by simp
next
  case (Cons image_path rest)
  show ?case
  proof (cases "is_cancelled e w")
    case True
    then show ?thesis using Cons.prems by simp
  next
    case False
    have "sound e (w\<lparr>retry_count := 0\<rparr>)" "\<not> is_cancelled e (w\<lparr>retry_count := 0\<rparr>)"
      using Cons.prems False by (simp_all add: sound_def is_cancelled_def)
    then have "sound e (attempt_loop e i n_total image_path (w\<lparr>retry_count := 0\<rparr>))"
      by (rule attempt_loop_sound)
    then show ?thesis using False Cons.IH by (simp add: Let_def)
  qed
qed

lemma run_sound: "sound e (run e image_paths)"
proof -
  have "sound e (initial e)" by (simp add: sound_def initial_def)
  then have "sound e (run_items e (length image_paths) 1 image_paths (initial e))"
    by (rule run_items_sound)
  then show ?thesis by (simp add: run_def Let_def sound_def emit_def)
qed

definition timely :: "worker \<Rightarrow> bool" where
  "timely w \<longleftrightarrow>
     sorted (map fst (dispatches (trace w)))
     \<and> list_all (\<lambda>tp. fst tp \<le> clock w) (dispatches (trace w))"

lemma sleep_loop_ge: "now \<le> sleep_loop c p end_time now"
proof (induction c p end_time now rule: sleep_loop.induct)
  case (1 c p end_time now)
  show ?case
  proof (cases "\<not> cancelled_by c now \<and> now < end_time \<and> 0 < p")
    case True
    then have "now + min p (end_time - now) \<le> sleep_loop c p end_time (now + min p (end_time - now))"
      by (intro "1.IH") auto
    moreover have "sleep_loop c p end_time now
                     = sleep_loop c p end_time (now + min p (end_time - now))"
      using True by (simp add: sleep_loop_step)
    moreover have "0 \<le> min p (end_time - now)" using True by simp
    ultimately show ?thesis by linarith
  next
    case False
    then have "sleep_loop c p end_time now = now"
      by (subst sleep_loop.simps) (auto simp: Let_def)
    then show ?thesis by simp
  qed
qed

lemma sleep_with_cancel_clock:
  "sleep_with_cancel e t m p w = (ok, w') \<Longrightarrow> clock w \<le> clock w'"
  using sleep_loop_ge [of "clock w" "cancel_at e" p "clock w + t"]
  by (auto simp: sleep_with_cancel_def emit_def Let_def split: if_splits option.splits)

lemma wait_for_rate_limit_clock:
  "wait_for_rate_limit e w = (ok, w') \<Longrightarrow> clock w \<le> clock w'"
  by (auto simp: wait_for_rate_limit_def Let_def
      split: if_splits prod.splits bool.splits dest: sleep_with_cancel_clock)

lemma pace_clock: "pace e i w = (ok, w') \<Longrightarrow> clock w \<le> clock w'"
  by (auto simp: pace_def split: if_splits prod.splits bool.splits
      dest: wait_for_rate_limit_clock)

lemma handle_rate_limit_error_clock:
  "handle_rate_limit_error e error image_path w = (h, w') \<Longrightarrow> clock w \<le> clock w'"
  by (auto simp: handle_rate_limit_error_def Let_def emit_def
      split: if_splits prod.splits bool.splits dest: sleep_with_cancel_clock)

lemma call_service_clock:
  "call_service e image_path w = (oc, w') \<Longrightarrow>
     clock w' = clock w + fst (service e (calls w) image_path)"
  by (auto simp: call_service_def emit_def Let_def split: prod.splits)

lemma timely_frame:
  assumes "timely w" and "dispatches (trace w') = dispatches (trace w)"
    and "clock w \<le> clock w'"
  shows "timely w'"
proof -
  have "fst tp \<le> clock w'" if "fst tp \<le> clock w" for tp :: "real \<times> string"
    using that assms(3) by simp
  then show ?thesis
    using assms(1,2) unfolding timely_def list_all_iff by auto
qed

text \<open>What a pass through \<open>dispatch\<close> does to the calls and the clock.\<close>

lemma dispatch_shape:
  assumes "dispatch e i n_total image_path w = (b, w')"
  shows "dispatches (trace w') = dispatches (trace w) @ [(clock w, image_path)]
         \<and> clock w + fst (service e (calls w) image_path) \<le> clock w'"
proof -
  define w1 where "w1 = emit (ProgressUpdated (Processing i n_total (basename image_path))) w"
  obtain oc w2 where cs: "call_service e image_path w1 = (oc, w2)" by fastforce
  have d2: "dispatches (trace w2) = dispatches (trace w) @ [(clock w, image_path)]"
    using call_service_trace [OF cs] by (simp add: w1_def emit_def)
  have c2: "clock w2 = clock w + fst (service e (calls w) image_path)"
    using call_service_clock [OF cs] by (simp add: w1_def emit_def)
  have "dispatches (trace w') = dispatches (trace w2) \<and> clock w2 \<le> clock w'"
  proof (cases oc)
    case Returned
    then show ?thesis
      using assms cs by (auto simp: dispatch_def w1_def Let_def emit_def)
  next
    case (Raised error)
    show ?thesis
    proof (cases "is_cancelled e w2")
      case True
      then show ?thesis
        using assms cs Raised by (auto simp: dispatch_def w1_def Let_def)
    next
      case False
      obtain h w3 where h: "handle_rate_limit_error e error image_path w2 = (h, w3)"
        by fastforce
      note f = handle_rate_limit_error_frame(2) [OF h] handle_rate_limit_error_clock [OF h]
      have "w' = w3 \<or> w' = (emit (ErrorOccurred (failed_message image_path error) image_path) w3)
                 \<lparr>results := dict_set image_path (Failure error)
                     (results (emit (ErrorOccurred (failed_message image_path error) image_path) w3))\<rparr>"
        using assms cs Raised False h
        by (auto simp: dispatch_def w1_def Let_def split: if_splits)
      then show ?thesis using f by (auto simp: emit_def)
    qed
  qed
  then show ?thesis using d2 c2 by simp
qed

lemma dispatch_timely:
  assumes "dispatch e i n_total image_path w = (b, w')" and "timely w"
    and "0 \<le> fst (service e (calls w) image_path)"
  shows "timely w'"
proof -
  have d: "dispatches (trace w') = dispatches (trace w) @ [(clock w, image_path)]"
    and c: "clock w \<le> clock w'"
    using dispatch_shape [OF assms(1)] assms(3) by auto
  have "\<forall>tp \<in> set (dispatches (trace w)). fst tp \<le> clock w"
    using assms(2) by (simp add: timely_def list_all_iff)
  then show ?thesis
    using assms(2) c unfolding timely_def d list_all_iff
    by (auto simp: sorted_append)
qed

lemma attempt_timely:
  assumes "attempt e i n_total image_path w = (b, w')" and "timely w"
    and "\<And>n p. 0 \<le> fst (service e n p)"
  shows "timely w'"
proof -
  obtain ok w1 where p: "pace e i w = (ok, w1)" by fastforce
  have t1: "timely w1"
    using timely_frame [OF assms(2) pace_frame(4) [OF p] pace_clock [OF p]] .
  show ?thesis
  proof (cases ok)
    case True
    then have "dispatch e i n_total image_path w1 = (b, w')"
      using assms(1) p by (simp add: attempt_def)
    then show ?thesis using t1 assms(3) by (rule dispatch_timely)
  next
    case False
    then have "w' = w1" using assms(1) p by (simp add: attempt_def)
    then show ?thesis using t1 by simp
  qed
qed

lemma attempt_loop_timely:
  "timely w \<Longrightarrow> (\<And>n p. 0 \<le> fst (service e n p)) \<Longrightarrow>
     timely (attempt_loop e i n_total image_path w)"
proof (induction e i n_total image_path w rule: attempt_loop.induct)
  case (1 e i n_total image_path w)
  obtain b w' where a: "attempt e i n_total image_path w = (b, w')" by fastforce
  note t = attempt_timely [OF a "1.prems"]
  show ?case
  proof (cases "retry_count w \<le> max_retries")
    case le: True
    show ?thesis
    proof (cases b)
      case True
      have "timely (attempt_loop e i n_total image_path w')"
        using "1.IH" [OF le] a True t "1.prems"(2) by simp
      then show ?thesis using a True le by (subst attempt_loop_unfold) simp
    next
      case False
      then show ?thesis using a le t by (subst attempt_loop_unfold) simp
    qed
  next
    case False
    then show ?thesis using "1.prems" by (subst attempt_loop_unfold) simp
  qed
qed

lemma run_items_timely:
  "timely w \<Longrightarrow> (\<And>n p. 0 \<le> fst (service e n p)) \<Longrightarrow>
     timely (run_items e n_total i image_paths w)"
proof (induction image_paths arbitrary: i w)
  case Nil
  then show ?case by simp
next
  case (Cons image_path rest)
  have "timely (w\<lparr>retry_count := 0\<rparr>)"
    using Cons.prems(1) by (simp add: timely_def)
  then have "timely (attempt_loop e i n_total image_path (w\<lparr>retry_count := 0\<rparr>))"
    using Cons.prems(2) by (rule attempt_loop_timely)
  then show ?case using Cons by (simp add: Let_def)
qed

lemma run_timely:
  assumes "\<And>n p. 0 \<le> fst (service e n p)"
  shows "sorted (map fst (dispatches (trace (run e image_paths))))"
proof -
  have "timely (initial e)" by (simp add: timely_def initial_def)
  then have "timely (run_items e (length image_paths) 1 image_paths (initial e))"
    using assms by (rule run_items_timely)
  then show ?thesis by (simp add: run_def Let_def timely_def emit_def)
qed

text \<open>
  Two cancelled runs: in \<open>cancelled_in_wait\<close> every call succeeds after one second and the
  flag is set at 1002.5, during the pacing wait before the third item (1002 to 1007); in
  \<open>cancelled_in_backoff\<close> every call fails after one second with a 429 and the flag is set
  at 1002, during the first backoff (1001 to 1031).
\<close>

definition cancelled_in_wait :: env where
  "cancelled_in_wait = quick_env\<lparr>cancel_at := Some (2005 / 2)\<rparr>"

definition cancelled_in_backoff :: env where
  "cancelled_in_backoff = throttled_env\<lparr>cancel_at := Some 1002\<rparr>"

lemma cancelled_in_wait_simps [simp]:
  "cancel_at cancelled_in_wait = Some (2005 / 2)" "rate_limit_delay cancelled_in_wait = 6"
  "output_dir cancelled_in_wait = ''out''" "start_time cancelled_in_wait = 1000"
  "service cancelled_in_wait n p = (1, Returned)"
  by (simp_all add: cancelled_in_wait_def quick_env_def)

lemma cancelled_in_backoff_simps [simp]:
  "cancel_at cancelled_in_backoff = Some 1002" "rate_limit_delay cancelled_in_backoff = 6"
  "output_dir cancelled_in_backoff = ''out''" "start_time cancelled_in_backoff = 1000"
  "service cancelled_in_backoff n p = (1, Raised ''429 Too Many Requests'')"
  by (simp_all add: cancelled_in_backoff_def throttled_env_def failing_env_def)

lemma output_path_of_out:
  "output_dir e = ''out'' \<Longrightarrow> output_path_of e ''a.jpg'' = ''out/a_gemini.jpg''"
  "output_dir e = ''out'' \<Longrightarrow> output_path_of e ''b.jpg'' = ''out/b_gemini.jpg''"
  by (simp_all add: output_path_of_def splitext_def basename_def sep_def join_def endswith_def
      Let_def)

lemma cancelled_in_wait_run:
  "trace (run cancelled_in_wait [''a.jpg'', ''b.jpg'', ''c.jpg''])
     = [ProgressUpdated (Processing 1 3 ''a.jpg''),
        Dispatch 1000 ''a.jpg'' ''out/a_gemini.jpg'',
        ImageProcessed ''a.jpg'' ''out/a_gemini.jpg'',
        ProgressUpdated (Processing 2 3 ''b.jpg''),
        Dispatch 1001 ''b.jpg'' ''out/b_gemini.jpg'',
        ImageProcessed ''b.jpg'' ''out/b_gemini.jpg'',
        ProgressUpdated (RateLimiting 5),
        ProgressUpdated Complete,
        FinishedAll [(''a.jpg'', Success ''out/a_gemini.jpg''),
                     (''b.jpg'', Success ''out/b_gemini.jpg'')]]"
  by (simp add: run_def initial_def Let_def is_cancelled_def cancelled_by_def
      attempt_loop_unfold attempt_def pace_def wait_for_rate_limit_def sleep_with_cancel_def
      sleep_loop_step sleep_loop_cancelled max_retries_def dispatch_returned emit_def
      output_path_of_out basename_def sep_def)

lemma cancelled_in_backoff_run:
  "trace (run cancelled_in_backoff [''a.jpg'', ''b.jpg''])
     = [ProgressUpdated (Processing 1 2 ''a.jpg''),
        Dispatch 1000 ''a.jpg'' ''out/a_gemini.jpg'',
        ProgressUpdated (RetryingIn 30 1 3),
        ProgressUpdated Complete,
        FinishedAll []]"
  by (simp add: run_def initial_def Let_def is_cancelled_def cancelled_by_def
      attempt_loop_unfold attempt_def pace_def dispatch_def call_service_eq
      handle_rate_limit_error_def is_transient_429 sleep_with_cancel_def
      sleep_loop_step sleep_loop_cancelled max_retries_def emit_def
      output_path_of_out basename_def sep_def)

lemma run_items_cancelled: "is_cancelled e w \<Longrightarrow> run_items e n_total i image_paths w = w"
  by (cases image_paths) simp_all

text \<open>
  Claim C7. In every run, whenever the cancellation flag is set: no call of the service is
  entered at or after that moment, so the item in progress is not retried and no later item
  is started (with call durations that are not negative, the calls are entered in the order
  of the clock); only items that were dispatched have an entry in the result mapping; and
  the run ends with the completion notice followed by the final aggregate event, which
  carries that mapping.
\<close>

theorem cancellation_stops_dispatch:
  "list_all (\<lambda>tp. \<not> cancelled_by (cancel_at e) (fst tp))
     (dispatches (trace (run e image_paths)))
   \<and> fst ` set (results (run e image_paths))
       \<subseteq> snd ` set (dispatches (trace (run e image_paths)))
   \<and> (\<exists>evs. trace (run e image_paths)
          = evs @ [ProgressUpdated Complete, FinishedAll (results (run e image_paths))])
   \<and> ((\<forall>n p. 0 \<le> fst (service e n p)) \<longrightarrow>
         sorted (map fst (dispatches (trace (run e image_paths)))))"
proof -
  have "sound e (run e image_paths)" by (rule run_sound)
  then have a: "list_all (\<lambda>tp. \<not> cancelled_by (cancel_at e) (fst tp))
                  (dispatches (trace (run e image_paths)))"
    and b: "fst ` set (results (run e image_paths))
              \<subseteq> snd ` set (dispatches (trace (run e image_paths)))"
    by (simp_all add: sound_def)
  have c: "\<exists>evs. trace (run e image_paths)
          = evs @ [ProgressUpdated Complete, FinishedAll (results (run e image_paths))]"
    by (simp add: run_def Let_def emit_def)
  have d: "sorted (map fst (dispatches (trace (run e image_paths))))"
    if "\<forall>n p. 0 \<le> fst (service e n p)"
    using that by (intro run_timely) simp
  show ?thesis using a b c d by blast
qed

theorem cancellation_stops_dispatch_witness:
  "cancel_at cancelled_in_wait = Some (2005 / 2)
   \<and> dispatches (trace (run cancelled_in_wait [''a.jpg'', ''b.jpg'', ''c.jpg'']))
       = [(1000, ''a.jpg''), (1001, ''b.jpg'')]
   \<and> list_all (\<lambda>tp. \<not> cancelled_by (cancel_at cancelled_in_wait) (fst tp))
       (dispatches (trace (run cancelled_in_wait [''a.jpg'', ''b.jpg'', ''c.jpg''])))
   \<and> fst ` set (results (run cancelled_in_wait [''a.jpg'', ''b.jpg'', ''c.jpg'']))
       \<subseteq> snd ` set (dispatches (trace (run cancelled_in_wait [''a.jpg'', ''b.jpg'', ''c.jpg''])))
   \<and> last (trace (run cancelled_in_wait [''a.jpg'', ''b.jpg'', ''c.jpg'']))
       = FinishedAll [(''a.jpg'', Success ''out/a_gemini.jpg''),
                      (''b.jpg'', Success ''out/b_gemini.jpg'')]
   \<and> cancel_at cancelled_in_backoff = Some 1002
   \<and> dispatches (trace (run cancelled_in_backoff [''a.jpg'', ''b.jpg''])) = [(1000, ''a.jpg'')]
   \<and> last (trace (run cancelled_in_backoff [''a.jpg'', ''b.jpg''])) = FinishedAll []"
proof -
  note t = cancellation_stops_dispatch [of cancelled_in_wait "[''a.jpg'', ''b.jpg'', ''c.jpg'']"]
  have "dispatches (trace (run cancelled_in_wait [''a.jpg'', ''b.jpg'', ''c.jpg'']))
       = [(1000, ''a.jpg''), (1001, ''b.jpg'')]"
    "last (trace (run cancelled_in_wait [''a.jpg'', ''b.jpg'', ''c.jpg'']))
       = FinishedAll [(''a.jpg'', Success ''out/a_gemini.jpg''),
                      (''b.jpg'', Success ''out/b_gemini.jpg'')]"
    by (simp_all add: cancelled_in_wait_run)
  moreover have "dispatches (trace (run cancelled_in_backoff [''a.jpg'', ''b.jpg'']))
       = [(1000, ''a.jpg'')]"
    "last (trace (run cancelled_in_backoff [''a.jpg'', ''b.jpg''])) = FinishedAll []"
    by (simp_all add: cancelled_in_backoff_run)
  moreover have "cancel_at cancelled_in_wait = Some (2005 / 2)"
    "cancel_at cancelled_in_backoff = Some 1002"
    by simp_all
  ultimately show ?thesis using t by blast
qed

section \<open>Retry and backoff\<close>

text \<open>
  The loop over the items, item by item: the state after the items \<open>xs @ ys\<close> is the state
  after \<open>ys\<close>, started in the state after \<open>xs\<close>. In a run that is not cancelled, an item
  starts in the state its predecessors left, with \<open>retry_count\<close> set to 0.
\<close>

lemma run_items_append:
  "run_items e n_total i (xs @ ys) w
     = run_items e n_total (i + length xs) ys (run_items e n_total i xs w)"
proof (induction xs arbitrary: i w)
  case Nil
  then show ?case by simp
next
  case (Cons x xs)
  show ?case
  proof (cases "is_cancelled e w")
    case True
    then show ?thesis by (simp add: run_items_cancelled)
  next
    case nc: False
    show ?thesis
    proof (cases "is_cancelled e (attempt_loop e i n_total x (w\<lparr>retry_count := 0\<rparr>))")
      case True
      then show ?thesis using nc by (simp add: run_items_cancelled Let_def)
    next
      case False
      then show ?thesis using nc Cons.IH [of "i + 1"] by (simp add: Let_def)
    qed
  qed
qed

lemma run_items_snoc:
  assumes "cancel_at e = None"
  shows "run_items e n_total i (xs @ [image_path]) w
           = attempt_loop e (i + length xs) n_total image_path
               ((run_items e n_total i xs w)\<lparr>retry_count := 0\<rparr>)"
  using assms by (simp add: run_items_append is_cancelled_def Let_def)

lemma throttled_item_in_run:
  assumes nc: "cancel_at e = None"
    and svc: "\<And>k. service e k image_path = (dur k, Raised (err k))"
    and tr: "\<And>k. is_transient (err k)"
  shows "backoffs (trace (run_items e n_total i (xs @ [image_path]) w))
           = backoffs (trace (run_items e n_total i xs w)) @ [30, 60, 120]"
    and "calls (run_items e n_total i (xs @ [image_path]) w)
           = calls (run_items e n_total i xs w) + 4"
    and "results (run_items e n_total i (xs @ [image_path]) w)
           = dict_set image_path (Failure (err (calls (run_items e n_total i xs w) + 3)))
               (results (run_items e n_total i xs w))"
proof -
  have rc: "retry_count ((run_items e n_total i xs w)\<lparr>retry_count := 0\<rparr>) = 0" by simp
  note item = throttled_item [OF nc svc tr rc, of "i + length xs" n_total]
  show "backoffs (trace (run_items e n_total i (xs @ [image_path]) w))
           = backoffs (trace (run_items e n_total i xs w)) @ [30, 60, 120]"
    and "calls (run_items e n_total i (xs @ [image_path]) w)
           = calls (run_items e n_total i xs w) + 4"
    and "results (run_items e n_total i (xs @ [image_path]) w)
           = dict_set image_path (Failure (err (calls (run_items e n_total i xs w) + 3)))
               (results (run_items e n_total i xs w))"
    using item unfolding run_items_snoc [OF nc] by simp_all
qed

lemma map_of_dict_set_other: "p \<noteq> k \<Longrightarrow> map_of (dict_set k v kvs) p = map_of kvs p"
  by (induction kvs) auto

text \<open>A run in which every call for every item fails with a transient error.\<close>

lemma all_throttled_items:
  assumes nc: "cancel_at e = None"
    and all: "\<forall>p \<in> set image_paths. \<forall>k. \<exists>d error. service e k p = (d, Raised error)
                \<and> is_transient error"
  shows "backoffs (trace (run_items e n_total 1 image_paths (initial e)))
           = concat (map (\<lambda>p. [30, 60, 120]) image_paths)
         \<and> calls (run_items e n_total 1 image_paths (initial e)) = 4 * length image_paths
         \<and> (\<forall>p \<in> set image_paths. \<exists>error.
               map_of (results (run_items e n_total 1 image_paths (initial e))) p
                 = Some (Failure error))"
  using all
proof (induction image_paths rule: rev_induct)
  case Nil
  then show ?case by (simp add: initial_def)
next
  case (snoc x xs)
  define dur where "dur k = fst (service e k x)" for k
  define err where "err k = (case snd (service e k x) of Raised error \<Rightarrow> error | Returned \<Rightarrow> [])"
    for k
  have x: "\<exists>d error. service e k x = (d, Raised error) \<and> is_transient error" for k
    using snoc.prems by simp
  have svc: "service e k x = (dur k, Raised (err k))" for k
    using x [of k] by (auto simp: dur_def err_def)
  have tr: "is_transient (err k)" for k
    using x [of k] by (auto simp: err_def)
  note item = throttled_item_in_run [OF nc svc tr, of n_total 1 xs "initial e"]
  have IH: "backoffs (trace (run_items e n_total 1 xs (initial e)))
              = concat (map (\<lambda>p. [30, 60, 120]) xs)"
    "calls (run_items e n_total 1 xs (initial e)) = 4 * length xs"
    "\<forall>p \<in> set xs. \<exists>error.
        map_of (results (run_items e n_total 1 xs (initial e))) p = Some (Failure error)"
    using snoc.IH snoc.prems by simp_all
  have 1: "backoffs (trace (run_items e n_total 1 (xs @ [x]) (initial e)))
             = concat (map (\<lambda>p. [30, 60, 120]) (xs @ [x]))"
    using item(1) IH(1) by simp
  have 2: "calls (run_items e n_total 1 (xs @ [x]) (initial e)) = 4 * length (xs @ [x])"
    using item(2) IH(2) by simp
  have 3: "\<exists>error. map_of (results (run_items e n_total 1 (xs @ [x]) (initial e))) p
             = Some (Failure error)" if "p \<in> set (xs @ [x])" for p
  proof (cases "p = x")
    case True
    then show ?thesis unfolding item(3) by (simp add: map_of_dict_set)
  next
    case False
    then have "p \<in> set xs" using that by simp
    then show ?thesis using IH(3) False unfolding item(3) by (simp add: map_of_dict_set_other)
  qed
  show ?case using 1 2 3 by blast
qed

lemma run_trace:
  "backoffs (trace (run e image_paths))
     = backoffs (trace (run_items e (length image_paths) 1 image_paths (initial e)))"
  "calls (run e image_paths) = calls (run_items e (length image_paths) 1 image_paths (initial e))"
  "results (run e image_paths)
     = results (run_items e (length image_paths) 1 image_paths (initial e))"
  by (simp_all add: run_def Let_def emit_def)

text \<open>
  Claim C2. In a run that is not cancelled, take any item, at any place in the list of
  items, whose every call fails with a transient error; the items before it and after it
  may behave in any way. While the run works on this item it announces the backoffs 30,
  60 and 120 seconds, in this order, whatever the retries of the items before it were;
  the fourth transient error ends the item, after four calls, with a failure recorded;
  and the run goes on with the items after it. When every item of a run is such an item,
  the backoffs of the whole run are 30, 60, 120 for each item in turn, with four calls
  for each and a failure recorded for each. And for n = 1, 2, 3, the handler of the n-th
  transient error of an item (it finds \<open>retry_count = n - 1\<close>) sleeps exactly
  \<open>30 * 2 ^ (n - 1)\<close> seconds before it asks for the retry.
\<close>

theorem backoff_sequence:
  assumes "cancel_at e = None"
    and "\<And>k. service e k image_path = (dur k, Raised (err k))"
    and "\<And>k. is_transient (err k)"
  shows "backoffs (trace (run_items e n_total 1 (before @ [image_path]) (initial e)))
           = backoffs (trace (run_items e n_total 1 before (initial e))) @ [30, 60, 120]
         \<and> calls (run_items e n_total 1 (before @ [image_path]) (initial e))
             = calls (run_items e n_total 1 before (initial e)) + 4
         \<and> results (run_items e n_total 1 (before @ [image_path]) (initial e))
             = dict_set image_path
                 (Failure (err (calls (run_items e n_total 1 before (initial e)) + 3)))
                 (results (run_items e n_total 1 before (initial e)))
         \<and> trace (run e (before @ image_path # after))
             = trace (run_items e (length (before @ image_path # after))
                        (length before + 2) after
                        (run_items e (length (before @ image_path # after)) 1
                           (before @ [image_path]) (initial e)))
                @ [ProgressUpdated Complete,
                   FinishedAll (results (run e (before @ image_path # after)))]
         \<and> ((\<forall>p \<in> set image_paths. \<forall>k. \<exists>d error. service e k p = (d, Raised error)
                  \<and> is_transient error) \<longrightarrow>
               backoffs (trace (run e image_paths)) = concat (map (\<lambda>p. [30, 60, 120]) image_paths)
               \<and> calls (run e image_paths) = 4 * length image_paths
               \<and> (\<forall>p \<in> set image_paths. \<exists>error.
                     map_of (results (run e image_paths)) p = Some (Failure error)))
         \<and> (\<forall>n v. 1 \<le> n \<and> n \<le> 3 \<and> retry_count v = n - 1 \<longrightarrow>
               handle_rate_limit_error e (err k) image_path v
                 = (True, v\<lparr>clock := clock v + 30 * 2 ^ (n - 1), retry_count := n,
                      trace := trace v @ [ProgressUpdated
                        (RetryingIn (30 * 2 ^ (n - 1)) n max_retries)]\<rparr>))"
proof -
  note item = throttled_item_in_run [OF assms, of n_total 1 before "initial e"]
  have "before @ image_path # after = (before @ [image_path]) @ after" by simp
  then have "run_items e n 1 (before @ image_path # after) (initial e)
          = run_items e n (length before + 2) after
              (run_items e n 1 (before @ [image_path]) (initial e))" for n
    by (simp only: run_items_append) simp
  then have goes_on: "trace (run e (before @ image_path # after))
             = trace (run_items e (length (before @ image_path # after))
                        (length before + 2) after
                        (run_items e (length (before @ image_path # after)) 1
                           (before @ [image_path]) (initial e)))
                @ [ProgressUpdated Complete,
                   FinishedAll (results (run e (before @ image_path # after)))]"
    by (simp add: run_def Let_def emit_def)
  have whole: "backoffs (trace (run e image_paths)) = concat (map (\<lambda>p. [30, 60, 120]) image_paths)
               \<and> calls (run e image_paths) = 4 * length image_paths
               \<and> (\<forall>p \<in> set image_paths. \<exists>error.
                     map_of (results (run e image_paths)) p = Some (Failure error))"
    if "\<forall>p \<in> set image_paths. \<forall>k. \<exists>d error. service e k p = (d, Raised error)
          \<and> is_transient error"
    unfolding run_trace
    by (rule all_throttled_items [OF assms(1) that])
  have handler: "handle_rate_limit_error e (err k) image_path v
          = (True, v\<lparr>clock := clock v + 30 * 2 ^ (n - 1), retry_count := n,
               trace := trace v @ [ProgressUpdated
                 (RetryingIn (30 * 2 ^ (n - 1)) n max_retries)]\<rparr>)"
    if n: "1 \<le> n" "n \<le> 3" "retry_count v = n - 1" for n v
  proof -
    have "retry_count v < max_retries" using n by (simp add: max_retries_def)
    moreover have "\<not> cancelled_by (cancel_at e) (clock v + 30 * 2 ^ retry_count v)"
      using assms(1) by simp
    moreover have "Suc (retry_count v) = n" using n by simp
    ultimately show ?thesis
      using handle_transient_retry [OF assms(3) [of k], of v e image_path] n by simp
  qed
  show ?thesis using item goes_on whole handler by blast
qed

text \<open>
  A run of two such items: the second item starts again with a backoff of 30 seconds. The
  eight calls are entered at these moments; every call fails after one second.
\<close>

lemma throttled_two_run:
  "dispatches (trace (run throttled_env [''a.jpg'', ''b.jpg'']))
     = [(1000, ''a.jpg''), (1031, ''a.jpg''), (1092, ''a.jpg''), (1213, ''a.jpg''),
        (1214, ''b.jpg''), (1245, ''b.jpg''), (1306, ''b.jpg''), (1427, ''b.jpg'')]"
  "results (run throttled_env [''a.jpg'', ''b.jpg''])
     = [(''a.jpg'', Failure ''429 Too Many Requests''),
        (''b.jpg'', Failure ''429 Too Many Requests'')]"
  by (simp_all add: run_def initial_def Let_def is_cancelled_def attempt_loop_unfold attempt_def
      pace_def wait_for_rate_limit_def max_retries_def dispatch_transient_retry
      dispatch_exhausted is_transient_429)

theorem backoff_sequence_witness:
  "cancel_at throttled_env = None
   \<and> is_transient ''429 Too Many Requests''
   \<and> backoffs (trace (run throttled_env [''a.jpg'', ''b.jpg''])) = [30, 60, 120, 30, 60, 120]
   \<and> calls (run throttled_env [''a.jpg'', ''b.jpg'']) = 8
   \<and> backoffs (trace (run_items throttled_env 2 1 [''a.jpg'', ''b.jpg''] (initial throttled_env)))
       = backoffs (trace (run_items throttled_env 2 1 [''a.jpg''] (initial throttled_env)))
          @ [30, 60, 120]
   \<and> results (run throttled_env [''a.jpg'', ''b.jpg''])
       = [(''a.jpg'', Failure ''429 Too Many Requests''),
          (''b.jpg'', Failure ''429 Too Many Requests'')]
   \<and> dispatches (trace (run throttled_env [''a.jpg'', ''b.jpg'']))
       = [(1000, ''a.jpg''), (1031, ''a.jpg''), (1092, ''a.jpg''), (1213, ''a.jpg''),
          (1214, ''b.jpg''), (1245, ''b.jpg''), (1306, ''b.jpg''), (1427, ''b.jpg'')]"
proof -
  have nc: "cancel_at throttled_env = None" by simp
  have svc: "service throttled_env k ''b.jpg'' = (1, Raised ''429 Too Many Requests'')" for k
    by simp
  have all: "\<forall>p \<in> set [''a.jpg'', ''b.jpg'']. \<forall>k. \<exists>d error.
               service throttled_env k p = (d, Raised error) \<and> is_transient error"
    by (simp add: is_transient_429)
  note t = backoff_sequence [OF nc svc is_transient_429, of 2 "[''a.jpg'']" "[]"
      "[''a.jpg'', ''b.jpg'']"]
  have ab: "[''a.jpg''] @ [''b.jpg''] = [''a.jpg'', ''b.jpg'']" by simp
  have item: "backoffs (trace (run_items throttled_env 2 1 [''a.jpg'', ''b.jpg'']
                                 (initial throttled_env)))
       = backoffs (trace (run_items throttled_env 2 1 [''a.jpg''] (initial throttled_env)))
          @ [30, 60, 120]"
    using t unfolding ab by blast
  have "backoffs (trace (run throttled_env [''a.jpg'', ''b.jpg'']))
          = concat (map (\<lambda>p. [30, 60, 120]) [''a.jpg'', ''b.jpg''])
        \<and> calls (run throttled_env [''a.jpg'', ''b.jpg'']) = 4 * length [''a.jpg'', ''b.jpg'']"
    using t all by blast
  then have whole: "backoffs (trace (run throttled_env [''a.jpg'', ''b.jpg'']))
                 = [30, 60, 120, 30, 60, 120]"
    "calls (run throttled_env [''a.jpg'', ''b.jpg'']) = 8"
    by simp_all
  show ?thesis using nc is_transient_429 item whole throttled_two_run by blast
qed

section \<open>Classifying errors\<close>

text \<open>
  The spec's reading of the classification: a text \<^emph>\<open>mentions\<close> a phrase when some stretch of
  it equals the phrase up to letter case, and an error is transient when its text mentions a
  rate-limit phrase, a quota-exceeded phrase or the code 429.
\<close>

definition mentions :: "string \<Rightarrow> string \<Rightarrow> bool" where
  "mentions text phrase = (\<exists>u v x. text = u @ v @ x \<and> lower v = lower phrase)"

definition spec_transient :: "string \<Rightarrow> bool" where
  "spec_transient error =
     (mentions error ''rate limit'' \<or> mentions error ''quota exceeded'' \<or> mentions error ''429'')"

lemma startswith_iff: "startswith s p \<longleftrightarrow> (\<exists>x. s = p @ x)"
  by (induction s p rule: startswith.induct) auto

lemma contains_iff: "contains m s \<longleftrightarrow> (\<exists>u x. s = u @ m @ x)"
proof (induction s)
  case Nil
  then show ?case by simp
next
  case (Cons c cs)
  have "(\<exists>u x. c # cs = u @ m @ x) \<longleftrightarrow> (\<exists>x. c # cs = m @ x) \<or> (\<exists>u x. cs = u @ m @ x)"
  proof
    assume "\<exists>u x. c # cs = u @ m @ x"
    then obtain u x where ux: "c # cs = u @ m @ x" by blast
    show "(\<exists>x. c # cs = m @ x) \<or> (\<exists>u x. cs = u @ m @ x)"
    proof (cases u)
      case Nil
      then show ?thesis using ux by auto
    next
      case (Cons a u')
      then have "cs = u' @ m @ x" using ux by simp
      then show ?thesis by blast
    qed
  next
    assume "(\<exists>x. c # cs = m @ x) \<or> (\<exists>u x. cs = u @ m @ x)"
    then show "\<exists>u x. c # cs = u @ m @ x"
    proof
      assume "\<exists>x. c # cs = m @ x"
      then obtain x where "c # cs = [] @ m @ x" by auto
      then show ?thesis by blast
    next
      assume "\<exists>u x. cs = u @ m @ x"
      then obtain u x where "c # cs = (c # u) @ m @ x" by auto
      then show ?thesis by blast
    qed
  qed
  then show ?case using Cons by (simp add: startswith_iff)
qed

lemma contains_lower_iff:
  "contains m (lower t) \<longleftrightarrow> (\<exists>u v x. t = u @ v @ x \<and> lower v = m)"
proof
  assume "contains m (lower t)"
  then obtain a b where "map lower_char t = a @ m @ b"
    unfolding contains_iff lower_def by blast
  then have "\<exists>u vs. t = u @ vs \<and> a = map lower_char u \<and> m @ b = map lower_char vs"
    by (simp only: map_eq_append_conv)
  then obtain u vs where u: "t = u @ vs" "map lower_char vs = m @ b"
    by metis
  from u(2) have "\<exists>v x. vs = v @ x \<and> m = map lower_char v \<and> b = map lower_char x"
    by (simp only: map_eq_append_conv)
  then obtain v x where "vs = v @ x" "map lower_char v = m"
    by metis
  with u show "\<exists>u v x. t = u @ v @ x \<and> lower v = m"
    unfolding lower_def by blast
next
  assume "\<exists>u v x. t = u @ v @ x \<and> lower v = m"
  then obtain u v x where "t = u @ v @ x" "lower v = m" by blast
  then have "lower t = lower u @ m @ lower x" by (simp add: lower_def)
  then show "contains m (lower t)" unfolding contains_iff by blast
qed

lemma is_transient_spec: "is_transient error \<longleftrightarrow> spec_transient error"
proof -
  have "lower ''rate limit'' = ''rate limit''" "lower ''quota exceeded'' = ''quota exceeded''"
    "lower ''429'' = ''429''"
    by (simp_all add: lower_char_def char_of_eq_iff)
  then show ?thesis
    by (simp add: is_transient_def spec_transient_def mentions_def contains_lower_iff)
qed


text \<open>A pass of the loop on an error raised by the call, after a pacing step that went through.\<close>

lemma attempt_transient_continues:
  assumes "pace e i w = (True, w1)" and "retry_count w < max_retries"
    and "service e (calls w1) image_path = (d, Raised error)"
    and "\<not> cancelled_by (cancel_at e) (clock w1 + d + 30 * 2 ^ retry_count w)"
    and "is_transient error"
  shows "fst (attempt e i n_total image_path w)"
proof -
  have rc: "retry_count w1 = retry_count w" using assms(1) by (rule pace_frame)
  have att: "attempt e i n_total image_path w = dispatch e i n_total image_path w1"
    using assms(1) by (simp add: attempt_def)
  have b: "retry_count w1 < max_retries" using assms(2) rc by simp
  have c: "\<not> cancelled_by (cancel_at e) (clock w1 + d + 30 * 2 ^ retry_count w1)"
    using assms(4) rc by simp
  show ?thesis
    unfolding att dispatch_transient_retry [OF assms(3) assms(5) b c] by simp
qed

lemma attempt_permanent:
  assumes "pace e i w = (True, w1)" and "retry_count w \<le> max_retries"
    and "service e (calls w1) image_path = (d, Raised error)"
    and "\<not> cancelled_by (cancel_at e) (clock w1 + d)"
    and "\<not> is_transient error"
  shows "attempt e i n_total image_path w
              = (False, w1\<lparr>clock := clock w1 + d, calls := Suc (calls w1),
                     results := dict_set image_path (Failure error) (results w1),
                     trace := trace w1
                       @ [ProgressUpdated (Processing i n_total (basename image_path)),
                          Dispatch (clock w1) image_path (output_path_of e image_path),
                          ErrorOccurred (failed_message image_path error) image_path]\<rparr>)"
proof -
  have att: "attempt e i n_total image_path w = dispatch e i n_total image_path w1"
    using assms(1) by (simp add: attempt_def)
  show ?thesis
    unfolding att by (rule dispatch_permanent [OF assms(3) assms(5) assms(4)])
qed

lemma attempt_loop_break:
  assumes "retry_count w \<le> max_retries" and "attempt e i n_total image_path w = (False, w')"
  shows "attempt_loop e i n_total image_path w = w'"
  by (subst attempt_loop_unfold) (simp only: assms fst_conv snd_conv if_True if_False)

text \<open>What a pass of the loop, and the loop, add to the calls of a trace.\<close>

lemma attempt_transient_retry:
  assumes "pace e i w = (True, w1)" and "retry_count w < max_retries"
    and "service e (calls w1) image_path = (d, Raised error)"
    and "\<not> cancelled_by (cancel_at e) (clock w1 + d + 30 * 2 ^ retry_count w)"
    and "is_transient error"
  shows "attempt e i n_total image_path w
           = (True, w1\<lparr>clock := clock w1 + d + 30 * 2 ^ retry_count w, calls := Suc (calls w1),
                retry_count := Suc (retry_count w),
                trace := trace w1
                  @ [ProgressUpdated (Processing i n_total (basename image_path)),
                     Dispatch (clock w1) image_path (output_path_of e image_path),
                     ProgressUpdated (RetryingIn (30 * 2 ^ retry_count w)
                       (Suc (retry_count w)) max_retries)]\<rparr>)"
proof -
  have rc: "retry_count w1 = retry_count w" using assms(1) by (rule pace_frame)
  have att: "attempt e i n_total image_path w = dispatch e i n_total image_path w1"
    using assms(1) by (simp add: attempt_def)
  have b: "retry_count w1 < max_retries" using assms(2) rc by simp
  have c: "\<not> cancelled_by (cancel_at e) (clock w1 + d + 30 * 2 ^ retry_count w1)"
    using assms(4) rc by simp
  show ?thesis
    unfolding att dispatch_transient_retry [OF assms(3) assms(5) b c] rc by (rule refl)
qed

lemma attempt_dispatches:
  assumes "attempt e i n_total image_path w = (b, w')"
  shows "\<exists>rest. dispatches (trace w') = dispatches (trace w) @ rest"
proof -
  obtain ok w1 where p: "pace e i w = (ok, w1)" by fastforce
  have d1: "dispatches (trace w1) = dispatches (trace w)" using p by (rule pace_frame)
  show ?thesis
  proof (cases ok)
    case True
    then have "dispatch e i n_total image_path w1 = (b, w')"
      using assms p by (simp add: attempt_def)
    from dispatch_shape [OF this] show ?thesis using d1 by simp
  next
    case False
    then have "w' = w1" using assms p by (simp add: attempt_def)
    then show ?thesis using d1 by simp
  qed
qed

lemma attempt_loop_dispatches:
  "\<exists>rest. dispatches (trace (attempt_loop e i n_total image_path w))
            = dispatches (trace w) @ rest"
proof (induction e i n_total image_path w rule: attempt_loop.induct)
  case (1 e i n_total image_path w)
  obtain b w' where a: "attempt e i n_total image_path w = (b, w')" by fastforce
  obtain r1 where r1: "dispatches (trace w') = dispatches (trace w) @ r1"
    using attempt_dispatches [OF a] by blast
  show ?case
  proof (cases "retry_count w \<le> max_retries")
    case le: True
    show ?thesis
    proof (cases b)
      case True
      obtain r2 where "dispatches (trace (attempt_loop e i n_total image_path w'))
                         = dispatches (trace w') @ r2"
        using "1.IH" [OF le] a True by auto
      moreover have "attempt_loop e i n_total image_path w
                       = attempt_loop e i n_total image_path w'"
        using a True le by (subst attempt_loop_unfold) simp
      ultimately show ?thesis using r1 by simp
    next
      case False
      then have "attempt_loop e i n_total image_path w = w'"
        using a le by (subst attempt_loop_unfold) simp
      then show ?thesis using r1 by simp
    qed
  next
    case False
    then have "attempt_loop e i n_total image_path w = w"
      by (subst attempt_loop_unfold) simp
    then show ?thesis by simp
  qed
qed

text \<open>
  The pass after a pass that ended in \<open>continue\<close>: unless the pacing step is cancelled, the
  service is called again for the same item.
\<close>

lemma attempt_loop_second_call:
  assumes "retry_count w2 \<le> max_retries" and "pace e i w2 = (True, w3)"
  shows "\<exists>rest. dispatches (trace (attempt_loop e i n_total image_path w2))
                  = dispatches (trace w2) @ (clock w3, image_path) # rest"
proof -
  obtain b w4 where d: "dispatch e i n_total image_path w3 = (b, w4)" by fastforce
  have a: "attempt e i n_total image_path w2 = (b, w4)"
    using assms(2) d by (simp add: attempt_def)
  have d3: "dispatches (trace w3) = dispatches (trace w2)" using assms(2) by (rule pace_frame)
  have d4: "dispatches (trace w4) = dispatches (trace w2) @ [(clock w3, image_path)]"
    using dispatch_shape [OF d] d3 by simp
  show ?thesis
  proof (cases b)
    case True
    then have "attempt_loop e i n_total image_path w2 = attempt_loop e i n_total image_path w4"
      using a assms(1) by (subst attempt_loop_unfold) simp
    moreover obtain r where "dispatches (trace (attempt_loop e i n_total image_path w4))
                               = dispatches (trace w4) @ r"
      using attempt_loop_dispatches by blast
    ultimately show ?thesis using d4 by simp
  next
    case False
    then have "attempt_loop e i n_total image_path w2 = w4"
      using a assms(1) by (subst attempt_loop_unfold) simp
    then show ?thesis using d4 by simp
  qed
qed

lemma transient_is_retried:
  assumes "pace e i w = (True, w1)" and "retry_count w < max_retries"
    and "service e (calls w1) image_path = (d, Raised error)"
    and "\<not> cancelled_by (cancel_at e) (clock w1 + d + 30 * 2 ^ retry_count w)"
    and "is_transient error"
  shows "\<exists>w2. attempt e i n_total image_path w = (True, w2)
           \<and> attempt_loop e i n_total image_path w = attempt_loop e i n_total image_path w2
           \<and> retry_count w2 = Suc (retry_count w)
           \<and> results w2 = results w \<and> errors_of (trace w2) = errors_of (trace w)
           \<and> backoffs (trace w2) = backoffs (trace w) @ [30 * 2 ^ retry_count w]
           \<and> (\<forall>w3. pace e i w2 = (True, w3) \<longrightarrow>
                 clock w1 + d + 30 * 2 ^ retry_count w \<le> clock w3
                 \<and> (\<exists>rest. dispatches (trace (attempt_loop e i n_total image_path w))
                              = dispatches (trace w)
                                 @ (clock w1, image_path) # (clock w3, image_path) # rest))"
proof -
  define w2 where "w2 = w1\<lparr>clock := clock w1 + d + 30 * 2 ^ retry_count w,
                calls := Suc (calls w1), retry_count := Suc (retry_count w),
                trace := trace w1
                  @ [ProgressUpdated (Processing i n_total (basename image_path)),
                     Dispatch (clock w1) image_path (output_path_of e image_path),
                     ProgressUpdated (RetryingIn (30 * 2 ^ retry_count w)
                       (Suc (retry_count w)) max_retries)]\<rparr>"
  have a: "attempt e i n_total image_path w = (True, w2)"
    unfolding w2_def by (rule attempt_transient_retry [OF assms])
  have le: "retry_count w \<le> max_retries" using assms(2) by simp
  have l: "attempt_loop e i n_total image_path w = attempt_loop e i n_total image_path w2"
    using a le by (subst attempt_loop_unfold) simp
  have rc2: "retry_count w2 = Suc (retry_count w)" by (simp add: w2_def)
  have le2: "retry_count w2 \<le> max_retries" using rc2 assms(2) by simp
  have f: "results w1 = results w" "dispatches (trace w1) = dispatches (trace w)"
    using assms(1) by (rule pace_frame)+
  have d2: "dispatches (trace w2) = dispatches (trace w) @ [(clock w1, image_path)]"
    using f(2) by (simp add: w2_def)
  have r2: "results w2 = results w" using f(1) by (simp add: w2_def)
  have tr1: "errors_of (trace w1) = errors_of (trace w)
             \<and> backoffs (trace w1) = backoffs (trace w)"
    using assms(1)
    by (auto simp: pace_def wait_for_rate_limit_def sleep_with_cancel_def emit_def Let_def
        split: if_splits prod.splits bool.splits)
  have e2: "errors_of (trace w2) = errors_of (trace w)"
    and b2: "backoffs (trace w2) = backoffs (trace w) @ [30 * 2 ^ retry_count w]"
    using tr1 by (simp_all add: w2_def)
  have again: "clock w1 + d + 30 * 2 ^ retry_count w \<le> clock w3
                 \<and> (\<exists>rest. dispatches (trace (attempt_loop e i n_total image_path w))
                              = dispatches (trace w)
                                 @ (clock w1, image_path) # (clock w3, image_path) # rest)"
    if p: "pace e i w2 = (True, w3)" for w3
  proof -
    have "clock w2 \<le> clock w3" using p by (rule pace_clock)
    then have c: "clock w1 + d + 30 * 2 ^ retry_count w \<le> clock w3" by (simp add: w2_def)
    obtain rest where "dispatches (trace (attempt_loop e i n_total image_path w2))
                         = dispatches (trace w2) @ (clock w3, image_path) # rest"
      using attempt_loop_second_call [OF le2 p] by blast
    then have "dispatches (trace (attempt_loop e i n_total image_path w))
                 = dispatches (trace w) @ (clock w1, image_path) # (clock w3, image_path) # rest"
      unfolding l d2 by simp
    then show ?thesis using c by blast
  qed
  show ?thesis using a l rc2 r2 e2 b2 again by blast
qed

text \<open>
  Claim C4. An error raised by the external call, on an item that has retries left, in a
  run not cancelled by the end of the backoff. The code's test is the spec's: the text
  mentions one of the three markers, letter case ignored. The pass ends in \<open>continue\<close>
  exactly when the error is transient. A transient error is retried: the pass records no
  failure and emits no error event, it announces the backoff and sleeps, the loop goes on
  from the state the backoff leaves, and its next pass, unless its pacing step is
  cancelled, calls the service again for the same item, no earlier than the end of the
  backoff; in a run that is never cancelled this second call always happens. Any other
  error ends the item at once: the loop is left after this one call, with one error event
  and a failure recorded.
\<close>

theorem transient_iff_marker:
  assumes "pace e i w = (True, w1)" and "retry_count w < max_retries"
    and "service e (calls w1) image_path = (d, Raised error)"
    and "\<not> cancelled_by (cancel_at e) (clock w1 + d + 30 * 2 ^ retry_count w)"
  shows "(is_transient error \<longleftrightarrow> spec_transient error)
         \<and> (fst (attempt e i n_total image_path w) \<longleftrightarrow> is_transient error)
         \<and> (is_transient error \<longrightarrow>
              (\<exists>w2. attempt e i n_total image_path w = (True, w2)
                 \<and> attempt_loop e i n_total image_path w
                     = attempt_loop e i n_total image_path w2
                 \<and> retry_count w2 = Suc (retry_count w)
                 \<and> results w2 = results w \<and> errors_of (trace w2) = errors_of (trace w)
                 \<and> backoffs (trace w2) = backoffs (trace w) @ [30 * 2 ^ retry_count w]
                 \<and> (\<forall>w3. pace e i w2 = (True, w3) \<longrightarrow>
                       clock w1 + d + 30 * 2 ^ retry_count w \<le> clock w3
                       \<and> (\<exists>rest. dispatches (trace (attempt_loop e i n_total image_path w))
                                    = dispatches (trace w)
                                       @ (clock w1, image_path) # (clock w3, image_path)
                                       # rest))))
         \<and> (is_transient error \<and> cancel_at e = None \<longrightarrow>
              (\<exists>t rest. clock w1 + d + 30 * 2 ^ retry_count w \<le> t
                 \<and> dispatches (trace (attempt_loop e i n_total image_path w))
                     = dispatches (trace w) @ (clock w1, image_path) # (t, image_path) # rest))
         \<and> (\<not> is_transient error \<longrightarrow>
              attempt_loop e i n_total image_path w
                = w1\<lparr>clock := clock w1 + d, calls := Suc (calls w1),
                     results := dict_set image_path (Failure error) (results w1),
                     trace := trace w1
                       @ [ProgressUpdated (Processing i n_total (basename image_path)),
                          Dispatch (clock w1) image_path (output_path_of e image_path),
                          ErrorOccurred (failed_message image_path error) image_path]\<rparr>
              \<and> dispatches (trace (attempt_loop e i n_total image_path w))
                  = dispatches (trace w) @ [(clock w1, image_path)])"
proof -
  have "clock w1 + d \<le> clock w1 + d + 30 * 2 ^ retry_count w" by simp
  then have nc: "\<not> cancelled_by (cancel_at e) (clock w1 + d)"
    using assms(4) cancelled_by_mono by blast
  have le: "retry_count w \<le> max_retries" using assms(2) by simp
  note perm = attempt_permanent [OF assms(1) le assms(3) nc, of n_total]
  have B: "fst (attempt e i n_total image_path w) \<longleftrightarrow> is_transient error"
  proof (cases "is_transient error")
    case True
    then show ?thesis using attempt_transient_continues [OF assms True] by simp
  next
    case False
    then show ?thesis by (simp only: perm [OF False] fst_conv)
  qed
  have R: "\<exists>w2. attempt e i n_total image_path w = (True, w2)
                 \<and> attempt_loop e i n_total image_path w
                     = attempt_loop e i n_total image_path w2
                 \<and> retry_count w2 = Suc (retry_count w)
                 \<and> results w2 = results w \<and> errors_of (trace w2) = errors_of (trace w)
                 \<and> backoffs (trace w2) = backoffs (trace w) @ [30 * 2 ^ retry_count w]
                 \<and> (\<forall>w3. pace e i w2 = (True, w3) \<longrightarrow>
                       clock w1 + d + 30 * 2 ^ retry_count w \<le> clock w3
                       \<and> (\<exists>rest. dispatches (trace (attempt_loop e i n_total image_path w))
                                    = dispatches (trace w)
                                       @ (clock w1, image_path) # (clock w3, image_path)
                                       # rest))"
    if "is_transient error"
    by (rule transient_is_retried [OF assms that])
  have N: "\<exists>t rest. clock w1 + d + 30 * 2 ^ retry_count w \<le> t
                 \<and> dispatches (trace (attempt_loop e i n_total image_path w))
                     = dispatches (trace w) @ (clock w1, image_path) # (t, image_path) # rest"
    if t: "is_transient error" and none: "cancel_at e = None"
  proof -
    obtain w2 where w2: "\<forall>w3. pace e i w2 = (True, w3) \<longrightarrow>
                       clock w1 + d + 30 * 2 ^ retry_count w \<le> clock w3
                       \<and> (\<exists>rest. dispatches (trace (attempt_loop e i n_total image_path w))
                                    = dispatches (trace w)
                                       @ (clock w1, image_path) # (clock w3, image_path)
                                       # rest)"
      using R [OF t] by blast
    obtain w3 where "pace e i w2 = (True, w3)"
      using pace_uncancelled [OF none, of i w2] by blast
    with w2 show ?thesis by blast
  qed
  have C: "attempt_loop e i n_total image_path w
                = w1\<lparr>clock := clock w1 + d, calls := Suc (calls w1),
                     results := dict_set image_path (Failure error) (results w1),
                     trace := trace w1
                       @ [ProgressUpdated (Processing i n_total (basename image_path)),
                          Dispatch (clock w1) image_path (output_path_of e image_path),
                          ErrorOccurred (failed_message image_path error) image_path]\<rparr>"
    if "\<not> is_transient error"
    by (rule attempt_loop_break [OF le perm [OF that]])
  have D: "dispatches (trace (attempt_loop e i n_total image_path w))
             = dispatches (trace w) @ [(clock w1, image_path)]"
    if "\<not> is_transient error"
    unfolding C [OF that] using pace_frame(4) [OF assms(1)] by simp
  show ?thesis using is_transient_spec [of error] B R N C D by blast
qed

text \<open>
  Two runs of one item, every call failing after one second: with a quota error the
  service is called four times, with the backoffs between the calls; with a permanent
  error it is called once.
\<close>

lemma quota_run:
  "is_transient ''Quota Exceeded for project''"
  "dispatches (trace (attempt_loop (failing_env ''Quota Exceeded for project'') 1 1 ''a.jpg''
                        (initial (failing_env ''Quota Exceeded for project''))))
     = [(1000, ''a.jpg''), (1031, ''a.jpg''), (1092, ''a.jpg''), (1213, ''a.jpg'')]"
proof -
  show t: "is_transient ''Quota Exceeded for project''"
    by (simp add: is_transient_def lower_char_def char_of_eq_iff)
  show "dispatches (trace (attempt_loop (failing_env ''Quota Exceeded for project'') 1 1 ''a.jpg''
                        (initial (failing_env ''Quota Exceeded for project''))))
     = [(1000, ''a.jpg''), (1031, ''a.jpg''), (1092, ''a.jpg''), (1213, ''a.jpg'')]"
    by (simp add: initial_def attempt_loop_unfold attempt_def pace_def max_retries_def
        dispatch_transient_retry dispatch_exhausted t)
qed

theorem transient_iff_marker_witness:
  "is_transient ''Quota Exceeded for project''
   \<and> fst (attempt (failing_env ''Quota Exceeded for project'') 1 1 ''a.jpg''
             (initial (failing_env ''Quota Exceeded for project'')))
   \<and> (\<exists>t rest. 1031 \<le> t
         \<and> dispatches (trace (attempt_loop (failing_env ''Quota Exceeded for project'') 1 1
                                 ''a.jpg'' (initial (failing_env ''Quota Exceeded for project''))))
             = (1000, ''a.jpg'') # (t, ''a.jpg'') # rest)
   \<and> dispatches (trace (attempt_loop (failing_env ''Quota Exceeded for project'') 1 1 ''a.jpg''
                          (initial (failing_env ''Quota Exceeded for project''))))
       = [(1000, ''a.jpg''), (1031, ''a.jpg''), (1092, ''a.jpg''), (1213, ''a.jpg'')]
   \<and> \<not> spec_transient ''Invalid image data''
   \<and> \<not> fst (attempt (failing_env ''Invalid image data'') 1 1 ''a.jpg''
               (initial (failing_env ''Invalid image data'')))
   \<and> errors_of (trace (attempt_loop (failing_env ''Invalid image data'') 1 1 ''a.jpg''
                          (initial (failing_env ''Invalid image data''))))
       = [(''Failed to process a.jpg: Invalid image data'', ''a.jpg'')]
   \<and> dispatches (trace (attempt_loop (failing_env ''Invalid image data'') 1 1 ''a.jpg''
                            (initial (failing_env ''Invalid image data''))))
       = [(1000, ''a.jpg'')]"
proof -
  note t = quota_run(1)
  have n: "\<not> is_transient ''Invalid image data''"
    by (simp add: is_transient_def lower_char_def char_of_eq_iff)
  have p: "pace (failing_env error) 1 (initial (failing_env error))
             = (True, initial (failing_env error))" for error
    by (simp add: pace_def)
  have r: "retry_count (initial (failing_env error)) < max_retries" for error
    by (simp add: initial_def max_retries_def)
  have s: "service (failing_env error) (calls (initial (failing_env error))) ''a.jpg''
             = (1, Raised error)" for error
    by simp
  have c: "\<not> cancelled_by (cancel_at (failing_env error))
               (clock (initial (failing_env error)) + 1
                  + 30 * 2 ^ retry_count (initial (failing_env error)))" for error
    by simp
  have i: "clock (initial (failing_env error)) = 1000"
    "retry_count (initial (failing_env error)) = 0"
    "trace (initial (failing_env error)) = []" for error
    by (simp_all add: initial_def)
  note yes = transient_iff_marker [OF p r s c, of "''Quota Exceeded for project''" 1]
  note no = transient_iff_marker [OF p r s c, of "''Invalid image data''" 1]
  have y1: "fst (attempt (failing_env ''Quota Exceeded for project'') 1 1 ''a.jpg''
             (initial (failing_env ''Quota Exceeded for project'')))"
    using yes t by blast
  have "\<exists>t rest. clock (initial (failing_env ''Quota Exceeded for project'')) + 1
            + 30 * 2 ^ retry_count (initial (failing_env ''Quota Exceeded for project'')) \<le> t
         \<and> dispatches (trace (attempt_loop (failing_env ''Quota Exceeded for project'') 1 1
                                 ''a.jpg'' (initial (failing_env ''Quota Exceeded for project''))))
             = dispatches (trace (initial (failing_env ''Quota Exceeded for project'')))
                @ (clock (initial (failing_env ''Quota Exceeded for project'')), ''a.jpg'')
                # (t, ''a.jpg'') # rest"
    using yes t failing_env_simps(1) [of "''Quota Exceeded for project''"] by blast
  then have y2: "\<exists>t rest. 1031 \<le> t
         \<and> dispatches (trace (attempt_loop (failing_env ''Quota Exceeded for project'') 1 1
                                 ''a.jpg'' (initial (failing_env ''Quota Exceeded for project''))))
             = (1000, ''a.jpg'') # (t, ''a.jpg'') # rest"
    unfolding i by simp
  have n1: "\<not> spec_transient ''Invalid image data''"
    "\<not> fst (attempt (failing_env ''Invalid image data'') 1 1 ''a.jpg''
               (initial (failing_env ''Invalid image data'')))"
    using no n by blast+
  have loop: "attempt_loop (failing_env ''Invalid image data'') 1 1 ''a.jpg''
                (initial (failing_env ''Invalid image data''))
              = initial (failing_env ''Invalid image data'')
                  \<lparr>clock := clock (initial (failing_env ''Invalid image data'')) + 1,
                   calls := Suc (calls (initial (failing_env ''Invalid image data''))),
                   results := dict_set ''a.jpg'' (Failure ''Invalid image data'')
                                (results (initial (failing_env ''Invalid image data''))),
                   trace := trace (initial (failing_env ''Invalid image data''))
                     @ [ProgressUpdated (Processing 1 1 (basename ''a.jpg'')),
                        Dispatch (clock (initial (failing_env ''Invalid image data'')))
                          ''a.jpg'' (output_path_of (failing_env ''Invalid image data'') ''a.jpg''),
                        ErrorOccurred (failed_message ''a.jpg'' ''Invalid image data'')
                          ''a.jpg'']\<rparr>"
    using no n by blast
  have e: "errors_of (trace (attempt_loop (failing_env ''Invalid image data'') 1 1 ''a.jpg''
                          (initial (failing_env ''Invalid image data''))))
       = [(''Failed to process a.jpg: Invalid image data'', ''a.jpg'')]"
    unfolding loop by (simp add: initial_def failed_message_def basename_def sep_def)
  have d: "dispatches (trace (attempt_loop (failing_env ''Invalid image data'') 1 1 ''a.jpg''
                            (initial (failing_env ''Invalid image data''))))
       = [(1000, ''a.jpg'')]"
    unfolding loop by (simp add: initial_def)
  show ?thesis using t y1 y2 quota_run(2) n1 e d by blast
qed

section \<open>The folder scanner\<close>

text \<open>
  \<open>FolderScannerThread\<close> of \<open>gui/workers.py\<close>. The directory tree that \<open>os.walk\<close> goes
  through is a \<open>tree\<close>: a directory that can be listed has its subdirectories, by name, and
  its file names, in the order \<open>os.scandir\<close> gives them. \<open>os.walk\<close> is called without
  \<open>onerror\<close>, so a directory whose listing fails with an \<open>OSError\<close> (or a link that is not
  followed) is passed over in silence: that is \<open>Unreadable\<close>. \<open>Faulty\<close> stands for a place
  where the walk raises an exception that does reach the \<open>except\<close> clause of \<open>run\<close>.
\<close>

datatype tree = Dir "(string \<times> tree) list" "string list" | Unreadable | Faulty

text \<open>
  The rest of the scanner's environment: \<open>path_exists\<close> is \<open>os.path.exists\<close>; \<open>set_order\<close>
  is the order in which Python iterates over the set of candidate directories (given here
  the candidates in insertion order, without duplicates); \<open>stop_after\<close> is the number of
  reads of \<open>is_cancelled\<close> that see it unset before \<open>stop()\<close> sets it, if it ever does.
\<close>

record world =
  path_exists :: "string \<Rightarrow> bool"
  set_order :: "string list \<Rightarrow> string list"
  stop_after :: "nat option"

record scanner =
  flag_reads :: nat
  image_files :: "string list"
  already_processed :: "(string \<times> string) list"
  already_processed_count :: nat
  skipped_dir_count :: nat
  skipped_file_count :: nat

text \<open>
  How the \<open>for\<close> loop over \<open>os.walk\<close> ends: the generator is exhausted, the loop is left
  by \<open>break\<close>, or an exception is raised. The signals of the scanner are \<open>files_found\<close> and
  \<open>scan_finished\<close>.
\<close>

datatype walk_end = Exhausted | Break | Exception

datatype signal = FilesFound "string list" | ScanFinished nat

text \<open>A read of \<open>self.is_cancelled\<close>: \<open>stopped\<close> is what it sees, \<open>tick\<close> counts it.\<close>

definition stopped :: "world \<Rightarrow> scanner \<Rightarrow> bool" where
  "stopped fs s = (case stop_after fs of None \<Rightarrow> False | Some k \<Rightarrow> k \<le> flag_reads s)"

definition tick :: "scanner \<Rightarrow> scanner" where
  "tick s = s\<lparr>flag_reads := Suc (flag_reads s)\<rparr>"

definition is_result_directory :: "string \<Rightarrow> bool" where
  "is_result_directory directory_path =
     (let name = lower (basename (rstrip_sep directory_path))
      in endswith name ''_gemini_results'' \<or> contains ''gemini_results'' name)"

definition is_result_file :: "string \<Rightarrow> bool" where
  "is_result_file filename = contains ''gemini'' (lower filename)"

definition image_extensions :: "string list" where
  "image_extensions = [''.jpg'', ''.jpeg'', ''.png'', ''.bmp'', ''.tiff'', ''.tif'', ''.webp'']"

definition has_image_extension :: "string \<Rightarrow> bool" where
  "has_image_extension file = list_ex (\<lambda>ext. endswith (lower file) ext) image_extensions"

definition output_extensions :: "string list" where
  "output_extensions = [''.jpg'', ''.jpeg'', ''.png'', ''.webp'']"

definition find_existing_result :: "world \<Rightarrow> string \<Rightarrow> string option" where
  "find_existing_result fs image_path =
     (let image_dir = dirname image_path;
          image_name = fst (splitext (basename image_path));
          parent_dir = dirname image_dir;
          candidate_dirs =
            [image_dir, join image_dir (image_name @ ''_gemini_results'')]
            @ (if parent_dir = [] then []
               else [join parent_dir (basename image_dir @ ''_gemini_results''),
                     join parent_dir ''gemini_results'']);
          candidates =
            concat (map (\<lambda>directory.
                           if directory = [] then []
                           else map (\<lambda>ext. join directory (image_name @ ''_gemini'') @ ext)
                                  output_extensions)
                      (set_order fs (remdups candidate_dirs)))
      in find (path_exists fs) candidates)"

text \<open>The inner loop, \<open>for file in files\<close>, for the directory \<open>root_path\<close>.\<close>

fun scan_files :: "world \<Rightarrow> string \<Rightarrow> string list \<Rightarrow> scanner \<Rightarrow> scanner" where
  "scan_files fs root_path [] s = s"
| "scan_files fs root_path (file # files) s =
     (if stopped fs s then tick s
      else if is_result_file file
      then scan_files fs root_path files ((tick s)\<lparr>skipped_file_count := Suc (skipped_file_count s)\<rparr>)
      else if \<not> has_image_extension file then scan_files fs root_path files (tick s)
      else let full_path = join root_path file
           in case find_existing_result fs full_path of
                Some existing_result \<Rightarrow>
                  scan_files fs root_path files
                    ((tick s)\<lparr>already_processed_count := Suc (already_processed_count s),
                              already_processed := already_processed s
                                                     @ [(full_path, existing_result)]\<rparr>)
              | None \<Rightarrow>
                  scan_files fs root_path files ((tick s)\<lparr>image_files := image_files s @ [full_path]\<rparr>))"

lemma size_list_filter_le: "size_list f (filter P xs) \<le> size_list f xs"
  by (induction xs) auto

text \<open>
  The outer loop over \<open>os.walk\<close>, top down: \<open>walk\<close> is the body for the directory the
  generator yields, followed by the walk of the subdirectories that the body left in
  \<open>dirs\<close>, which is \<open>walk_dirs\<close>.
\<close>

function walk :: "world \<Rightarrow> string \<Rightarrow> tree \<Rightarrow> scanner \<Rightarrow> walk_end \<times> scanner"
  and walk_dirs :: "world \<Rightarrow> string \<Rightarrow> (string \<times> tree) list \<Rightarrow> scanner \<Rightarrow> walk_end \<times> scanner"
  where
  "walk fs root_path Unreadable s = (Exhausted, s)"
| "walk fs root_path Faulty s = (Exception, s)"
| "walk fs root_path (Dir dirs files) s =
     (if stopped fs s then (Break, tick s)
      else if is_result_directory root_path
      then (Exhausted, (tick s)\<lparr>skipped_dir_count := Suc (skipped_dir_count s)\<rparr>)
      else let kept = filter (\<lambda>d. \<not> is_result_directory (join root_path (fst d))) dirs;
               s1 = (tick s)\<lparr>skipped_dir_count :=
                                skipped_dir_count s + (length dirs - length kept)\<rparr>
           in walk_dirs fs root_path kept (scan_files fs root_path files s1))"
| "walk_dirs fs root_path [] s = (Exhausted, s)"
| "walk_dirs fs root_path (d # dirs) s =
     (case walk fs (join root_path (fst d)) (snd d) s of
        (Exhausted, s1) \<Rightarrow> walk_dirs fs root_path dirs s1
      | (Break, s1) \<Rightarrow> (Break, s1)
      | (Exception, s1) \<Rightarrow> (Exception, s1))"
  by pat_completeness auto
termination
proof (relation "measure (\<lambda>x. case x of
            Inl (fs, root_path, t, s) \<Rightarrow> 2 * size t
          | Inr (fs, root_path, ds, s) \<Rightarrow> 2 * size_list (size_prod (\<lambda>_. 0) size) ds + 1)",
    goal_cases)
  case 1
  show ?case by simp
next
  case (2 fs root_path dirs files s kept s1)
  have "size_list (size_prod (\<lambda>_. 0) size) kept \<le> size_list (size_prod (\<lambda>_. 0) size) dirs"
    unfolding 2 by (rule size_list_filter_le)
  then show ?case by simp
next
  case (3 fs root_path d dirs s)
  show ?case by (cases d) simp
next
  case (4 fs root_path d dirs s x y)
  show ?case by simp
qed

definition scanner0 :: scanner where
  "scanner0 = \<lparr>flag_reads = 0, image_files = [], already_processed = [],
                already_processed_count = 0, skipped_dir_count = 0, skipped_file_count = 0\<rparr>"

definition scanner_run :: "world \<Rightarrow> string \<Rightarrow> tree \<Rightarrow> scanner \<times> signal list" where
  "scanner_run fs folder_path t =
     (case walk fs folder_path t scanner0 of
        (Exception, s) \<Rightarrow> (s, [ScanFinished 0])
      | (_, s) \<Rightarrow>
          if stopped fs s then (tick s, [])
          else (tick s, [FilesFound (image_files s),
                         ScanFinished (length (image_files s) + already_processed_count s)]))"

section \<open>Facts about the scanner\<close>

text \<open>
  \<open>has_fault\<close>: somewhere in the tree the walk would raise. \<open>valid_name\<close>: a name as a file
  system gives it, not empty and without a separator; \<open>names_ok\<close>: every name in the tree is
  one.
\<close>

fun has_fault :: "tree \<Rightarrow> bool" where
  "has_fault Faulty = True"
| "has_fault Unreadable = False"
| "has_fault (Dir dirs files) = list_ex (\<lambda>d. has_fault (snd d)) dirs"

definition valid_name :: "string \<Rightarrow> bool" where
  "valid_name name \<longleftrightarrow> name \<noteq> [] \<and> sep \<notin> set name"

fun names_ok :: "tree \<Rightarrow> bool" where
  "names_ok (Dir dirs files) =
     (list_all valid_name files
      \<and> list_all (\<lambda>d. valid_name (fst d) \<and> names_ok (snd d)) dirs)"
| "names_ok Unreadable = True"
| "names_ok Faulty = True"

subsection \<open>The flag, once set, stays set\<close>


lemma stopped_None [simp]: "stop_after fs = None \<Longrightarrow> \<not> stopped fs s"
  by (simp add: stopped_def)


subsection \<open>The count of already processed inputs\<close>



subsection \<open>Exceptions\<close>

lemma walk_exception:
  "fst (walk fs root_path t s) = Exception \<Longrightarrow> has_fault t"
  "fst (walk_dirs fs root_path dirs s) = Exception \<Longrightarrow> list_ex (\<lambda>d. has_fault (snd d)) dirs"
proof (induction fs root_path t s and fs root_path dirs s rule: walk_walk_dirs.induct)
  case (1 fs root_path s)
  then show ?case by simp
next
  case (2 fs root_path s)
  then show ?case by simp
next
  case (3 fs root_path dirs files s)
  have "list_ex (\<lambda>d. has_fault (snd d)) (filter P dirs) \<Longrightarrow> list_ex (\<lambda>d. has_fault (snd d)) dirs"
    for P by (force simp: list_ex_iff)
  then show ?case
    using "3.prems" "3.IH" by (auto simp: Let_def split: if_splits)
next
  case (4 fs root_path s)
  then show ?case by simp
next
  case (5 fs root_path d dirs s)
  obtain e s1 where w: "walk fs (join root_path (fst d)) (snd d) s = (e, s1)" by fastforce
  show ?case
  proof (cases e)
    case Exhausted
    then show ?thesis using "5.prems" "5.IH"(2) [OF w [symmetric] Exhausted] w by simp
  next
    case Break
    then show ?thesis using "5.prems" w by simp
  next
    case Exception
    then show ?thesis using "5.IH"(1) w by simp
  qed
qed

subsection \<open>Concrete scans\<close>

text \<open>
  A folder \<open>/in\<close> with a subfolder \<open>photos\<close>, the results folder \<open>photos_gemini_results\<close>
  beside it, which holds the output for \<open>photos/a.jpg\<close> and more, and a folder that cannot
  be listed. In \<open>stopped_world\<close> the flag is set after two reads, while the files of \<open>/in\<close>
  are being looked at. \<open>locked_tree\<close> has one file and a folder that cannot be listed;
  in \<open>faulty_tree\<close> the walk raises at the second subfolder.
\<close>

definition sample_tree :: tree where
  "sample_tree =
     Dir [(''photos'', Dir [] [''a.jpg'', ''b.jpg'']),
          (''photos_gemini_results'',
             Dir [(''deep'', Dir [] [''c.jpg''])] [''a_gemini.jpg'', ''d.jpg'']),
          (''locked'', Unreadable)]
         [''top.png'', ''notes.txt'', ''My_GEMINI_pic.png'']"

definition sample_world :: world where
  "sample_world = \<lparr>path_exists = (\<lambda>p. p = ''/in/photos_gemini_results/a_gemini.jpg''),
                    set_order = (\<lambda>dirs. dirs), stop_after = None\<rparr>"

definition stopped_world :: world where
  "stopped_world = sample_world\<lparr>stop_after := Some 2\<rparr>"

definition locked_tree :: tree where
  "locked_tree = Dir [(''locked'', Unreadable)] [''top.png'']"

definition faulty_tree :: tree where
  "faulty_tree = Dir [(''a'', Dir [] [''x.jpg'']), (''bad'', Faulty)] [''top.png'']"

lemmas scan_eval =
  scanner_run_def scanner0_def stopped_def tick_def is_result_directory_def is_result_file_def
  has_image_extension_def image_extensions_def output_extensions_def find_existing_result_def
  basename_def dirname_def rstrip_sep_def join_def splitext_def endswith_def sep_def Let_def
  lower_char_def char_of_eq_iff sample_world_def stopped_world_def

lemma sample_walk:
  "walk sample_world ''/in'' sample_tree scanner0
     = (Exhausted,
        \<lparr>flag_reads = 7, image_files = [''/in/top.png'', ''/in/photos/b.jpg''],
          already_processed =
            [(''/in/photos/a.jpg'', ''/in/photos_gemini_results/a_gemini.jpg'')],
          already_processed_count = 1, skipped_dir_count = 1, skipped_file_count = 1\<rparr>)"
  by (simp add: scan_eval sample_tree_def)


lemma locked_walk:
  "walk sample_world ''/in'' locked_tree scanner0
     = (Exhausted,
        \<lparr>flag_reads = 2, image_files = [''/in/top.png''], already_processed = [],
          already_processed_count = 0, skipped_dir_count = 0, skipped_file_count = 0\<rparr>)"
  by (simp add: scan_eval locked_tree_def)

lemma faulty_walk:
  "walk sample_world ''/in'' faulty_tree scanner0
     = (Exception,
        \<lparr>flag_reads = 4, image_files = [''/in/top.png'', ''/in/a/x.jpg''],
          already_processed = [],
          already_processed_count = 0, skipped_dir_count = 0, skipped_file_count = 0\<rparr>)"
  by (simp add: scan_eval faulty_tree_def)

section \<open>What a scan emits\<close>

lemma scanner_run_signals:
  "fst (walk fs folder_path t scanner0) \<noteq> Exception \<Longrightarrow>
     scanner_run fs folder_path t
       = (tick (snd (walk fs folder_path t scanner0)),
          if stopped fs (snd (walk fs folder_path t scanner0)) then []
          else [FilesFound (image_files (snd (walk fs folder_path t scanner0))),
                ScanFinished (length (image_files (snd (walk fs folder_path t scanner0)))
                  + already_processed_count (snd (walk fs folder_path t scanner0)))])"
  by (cases "walk fs folder_path t scanner0"; cases "fst (walk fs folder_path t scanner0)")
    (simp_all add: scanner_run_def)




section \<open>Failures during a scan\<close>

lemma sample_world_None: "stop_after sample_world = None"
  by (simp add: sample_world_def)

text \<open>
  Claim C8, as stated, has every I/O failure during the walk end the scan with zero results
  and a completion count of 0. Here a folder of the tree cannot be listed. \<open>os.walk\<close>, called
  without \<open>onerror\<close>, ignores the error and passes the folder over, so nothing is raised,
  the \<open>except\<close> clause is not reached, and the scan emits what it found beside that folder.
\<close>

theorem unreadable_folder_scan:
  "locked_tree = Dir [(''locked'', Unreadable)] [''top.png'']
   \<and> snd (scanner_run sample_world ''/in'' locked_tree)
       = [FilesFound [''/in/top.png''], ScanFinished 1]"
proof
  show "locked_tree = Dir [(''locked'', Unreadable)] [''top.png'']"
    by (simp add: locked_tree_def)
  show "snd (scanner_run sample_world ''/in'' locked_tree)
          = [FilesFound [''/in/top.png''], ScanFinished 1]"
    by (simp add: scanner_run_def locked_walk tick_def sample_world_None)
qed

text \<open>
  Claim C8, amended. \<open>scanner_run\<close> returns its signals for every tree, so nothing
  propagates out of a scan. When an exception is raised during the walk, the scan emits
  a completion count of 0 and nothing else, whatever it had found. A tree without a fault
  raises nothing, and a folder that cannot be listed is passed over: the walk goes on with
  the next folder, in the same state.
\<close>

theorem scan_failure_contained:
  "(fst (walk fs folder_path t scanner0) = Exception \<longrightarrow>
      snd (scanner_run fs folder_path t) = [ScanFinished 0])
   \<and> (\<not> has_fault t \<longrightarrow> fst (walk fs folder_path t scanner0) \<noteq> Exception)
   \<and> walk_dirs fs root_path ((name, Unreadable) # dirs) s = walk_dirs fs root_path dirs s"
proof -
  have a: "snd (scanner_run fs folder_path t) = [ScanFinished 0]"
    if "fst (walk fs folder_path t scanner0) = Exception"
    using that by (cases "walk fs folder_path t scanner0") (simp add: scanner_run_def)
  have b: "fst (walk fs folder_path t scanner0) \<noteq> Exception" if "\<not> has_fault t"
    using that walk_exception(1) by blast
  have c: "walk_dirs fs root_path ((name, Unreadable) # dirs) s = walk_dirs fs root_path dirs s"
    by simp
  show ?thesis using a b c by blast
qed

theorem scan_failure_contained_witness:
  "fst (walk sample_world ''/in'' faulty_tree scanner0) = Exception
   \<and> snd (scanner_run sample_world ''/in'' faulty_tree) = [ScanFinished 0]
   \<and> \<not> has_fault locked_tree
   \<and> fst (walk sample_world ''/in'' locked_tree scanner0) \<noteq> Exception"
proof -
  have 1: "fst (walk sample_world ''/in'' faulty_tree scanner0) = Exception"
    by (simp add: faulty_walk)
  have 2: "\<not> has_fault locked_tree" by (simp add: locked_tree_def)
  show ?thesis
    using scan_failure_contained [of sample_world "''/in''" faulty_tree]
      scan_failure_contained [of sample_world "''/in''" locked_tree] 1 2
    by blast
qed

section \<open>The consumer of a scan\<close>

text \<open>
  \<open>GeminiSkyRemovalGUI.on_folder_scanned\<close> of \<open>gui/main_window.py\<close>, the slot of
  \<open>files_found\<close>: from the list the scanner emitted (\<open>found_files\<close>, the slot's argument
  \<open>image_files\<close>) and the scanner's \<open>already_processed\<close> pairs it computes the two fields
  that make up the scan's result for the rest of the program. \<open>exists_now\<close> is
  \<open>os.path.exists\<close> at that moment. The dict comprehension keeps, for a path listed twice,
  the last result; \<open>sorted\<close> on strings is the lexicographic order of the characters.
\<close>

record main_window =
  pre_existing_results :: "(string \<times> string) list"
  input_files :: "string list"

definition on_folder_scanned ::
    "(string \<Rightarrow> bool) \<Rightarrow> (string \<times> string) list \<Rightarrow> string list \<Rightarrow> main_window" where
  "on_folder_scanned exists_now already found_files =
     (let processed_map =
            foldl (\<lambda>m entry. case entry of (path, result) \<Rightarrow>
                     if path \<noteq> [] \<and> result \<noteq> [] \<and> exists_now result
                     then dict_set path result m else m)
              [] already;
          pending_files = sort (filter (\<lambda>path. path \<notin> fst ` set processed_map) found_files)
      in \<lparr>pre_existing_results = processed_map, input_files = pending_files\<rparr>)"

text \<open>
  Claim C6. Whatever the scanner emitted and recorded, the pending sequence the consumer
  keeps is sorted, in the lexicographic order of strings, and shares no element with the
  keys of the already-processed mapping: it holds exactly the emitted paths that are not
  such keys.
\<close>

theorem pending_sorted_disjoint:
  "sorted (input_files (on_folder_scanned exists_now already found_files))
   \<and> set (input_files (on_folder_scanned exists_now already found_files))
       \<inter> fst ` set (pre_existing_results (on_folder_scanned exists_now already found_files))
       = {}
   \<and> set (input_files (on_folder_scanned exists_now already found_files))
       = set found_files
           - fst ` set (pre_existing_results (on_folder_scanned exists_now already found_files))"
  by (auto simp: on_folder_scanned_def Let_def)

theorem pending_sorted_disjoint_witness:
  "on_folder_scanned (path_exists sample_world)
      (already_processed (fst (scanner_run sample_world ''/in'' sample_tree)))
      [''/in/top.png'', ''/in/photos/b.jpg'', ''/in/photos/a.jpg'']
     = \<lparr>pre_existing_results =
          [(''/in/photos/a.jpg'', ''/in/photos_gemini_results/a_gemini.jpg'')],
        input_files = [''/in/photos/b.jpg'', ''/in/top.png'']\<rparr>
   \<and> sorted [''/in/photos/b.jpg'', ''/in/top.png'']
   \<and> set [''/in/photos/b.jpg'', ''/in/top.png'']
       \<inter> fst ` set [(''/in/photos/a.jpg'', ''/in/photos_gemini_results/a_gemini.jpg'')] = {}"
proof -
  have 1: "fst (walk sample_world ''/in'' sample_tree scanner0) \<noteq> Exception"
    by (simp add: sample_walk)
  have ap: "already_processed (fst (scanner_run sample_world ''/in'' sample_tree))
              = [(''/in/photos/a.jpg'', ''/in/photos_gemini_results/a_gemini.jpg'')]"
    by (simp add: scanner_run_signals [OF 1] sample_walk tick_def)
  have le: "''/in/photos/b.jpg'' \<le> ''/in/top.png''"
    by (simp add: less_eq_char_def)
  have ev: "on_folder_scanned (path_exists sample_world)
      [(''/in/photos/a.jpg'', ''/in/photos_gemini_results/a_gemini.jpg'')]
      [''/in/top.png'', ''/in/photos/b.jpg'', ''/in/photos/a.jpg'']
     = \<lparr>pre_existing_results =
          [(''/in/photos/a.jpg'', ''/in/photos_gemini_results/a_gemini.jpg'')],
        input_files = [''/in/photos/b.jpg'', ''/in/top.png'']\<rparr>"
    using le by (simp add: on_folder_scanned_def Let_def sample_world_def insort_key.simps)
  show ?thesis
    using pending_sorted_disjoint [of "path_exists sample_world"
        "[(''/in/photos/a.jpg'', ''/in/photos_gemini_results/a_gemini.jpg'')]"
        "[''/in/top.png'', ''/in/photos/b.jpg'', ''/in/photos/a.jpg'']"]
    unfolding ap ev by simp
qed

section \<open>What the scanner leaves out\<close>

subsection \<open>Joining a name to a directory\<close>

lemma startswith_sep: "startswith n [sep] \<longleftrightarrow> n \<noteq> [] \<and> hd n = sep"
  by (cases n) auto

lemma endswith_sep: "endswith r [sep] \<longleftrightarrow> r \<noteq> [] \<and> last r = sep"
  by (cases r rule: rev_cases) (auto simp: endswith_def)

lemma join_valid:
  assumes "valid_name n"
  shows "join r n = (if r = [] \<or> last r = sep then r @ n else r @ sep # n)"
proof -
  have "hd n \<noteq> sep" using assms by (cases n) (auto simp: valid_name_def)
  then show ?thesis by (auto simp: join_def startswith_sep endswith_sep)
qed

lemma basename_append_name:
  assumes "sep \<notin> set n" and "r = [] \<or> last r = sep"
  shows "basename (r @ n) = n"
proof (cases r rule: rev_cases)
  case Nil
  have "\<forall>x \<in> set (rev n). x \<noteq> sep" using assms(1) by auto
  then have tw: "takeWhile (\<lambda>c. c \<noteq> sep) (rev n) = rev n"
    by (rule takeWhile_eq_all_conv [THEN iffD2])
  show ?thesis unfolding Nil basename_def append_Nil tw by (rule rev_rev_ident)
next
  case (snoc r' c)
  then have c: "c = sep" using assms(2) by simp
  have "takeWhile (\<lambda>c. c \<noteq> sep) (rev n @ sep # rev r')
          = rev n @ takeWhile (\<lambda>c. c \<noteq> sep) (sep # rev r')"
    by (rule takeWhile_append2) (use assms(1) in auto)
  then have tw: "takeWhile (\<lambda>c. c \<noteq> sep) (rev n @ sep # rev r') = rev n"
    by simp
  have rv: "rev (r @ n) = rev n @ sep # rev r'" using snoc c by simp
  show ?thesis unfolding basename_def rv tw by (rule rev_rev_ident)
qed

lemma basename_join:
  assumes "valid_name n"
  shows "basename (join r n) = n"
proof -
  have s: "sep \<notin> set n" using assms by (simp add: valid_name_def)
  show ?thesis
  proof (cases "r = [] \<or> last r = sep")
    case True
    then show ?thesis using basename_append_name [OF s True] join_valid [OF assms] by simp
  next
    case False
    have "basename ((r @ [sep]) @ n) = n"
      by (rule basename_append_name [OF s]) simp
    then show ?thesis using False join_valid [OF assms, of r] by simp
  qed
qed




subsection \<open>The paths a scan classifies\<close>

text \<open>
  \<open>found\<close>: the inputs a scan has classified so far, as pending (\<open>image_files\<close>) or as
  already processed (the first components of \<open>already_processed\<close>). The two lemmas carry a
  property \<open>Q\<close> of paths through the loops, given a property \<open>A\<close> of the directories
  the walk enters.
\<close>

definition found :: "scanner \<Rightarrow> string set" where
  "found s = set (image_files s) \<union> fst ` set (already_processed s)"

lemma found_tick [simp]: "found (tick s) = found s"
  by (simp add: found_def tick_def)

lemma scan_files_found:
  assumes "\<And>f. f \<in> set files \<Longrightarrow> \<not> is_result_file f \<Longrightarrow> Q (join root_path f)"
    and "\<forall>p \<in> found s. Q p"
  shows "\<forall>p \<in> found (scan_files fs root_path files s). Q p"
  using assms
proof (induction fs root_path files s rule: scan_files.induct)
  case (1 fs root_path s)
  then show ?case by simp
next
  case (2 fs root_path name files s)
  note q = "2.prems"(1)
  have tail: "\<And>f. f \<in> set files \<Longrightarrow> \<not> is_result_file f \<Longrightarrow> Q (join root_path f)"
    using q by simp
  show ?case
  proof (cases "stopped fs s")
    case True
    then show ?thesis using "2.prems"(2) by simp
  next
    case ns: False
    show ?thesis
    proof (cases "is_result_file name")
      case True
      have "\<forall>p \<in> found ((tick s)\<lparr>skipped_file_count := Suc (skipped_file_count s)\<rparr>). Q p"
        using "2.prems"(2) by (simp add: found_def tick_def)
      then show ?thesis using "2.IH"(1) [OF ns True tail] ns True by simp
    next
      case nf: False
      show ?thesis
      proof (cases "has_image_extension name")
        case False
        have "\<forall>p \<in> found (tick s). Q p" using "2.prems"(2) by simp
        then show ?thesis using "2.IH"(2) [OF ns nf _ tail] ns nf False by simp
      next
        case True
        have here: "Q (join root_path name)" using q nf by simp
        show ?thesis
        proof (cases "find_existing_result fs (join root_path name)")
          case None
          have "\<forall>p \<in> found ((tick s)\<lparr>image_files := image_files s @ [join root_path name]\<rparr>). Q p"
            using "2.prems"(2) here by (auto simp: found_def tick_def)
          then show ?thesis
            using "2.IH"(3) [OF ns nf _ refl None tail] ns nf True None by (simp add: Let_def)
        next
          case (Some r)
          have "\<forall>p \<in> found ((tick s)\<lparr>already_processed_count := Suc (already_processed_count s),
                         already_processed := already_processed s @ [(join root_path name, r)]\<rparr>). Q p"
            using "2.prems"(2) here by (auto simp: found_def tick_def)
          then show ?thesis
            using "2.IH"(4) [OF ns nf _ refl Some tail] ns nf True Some by (simp add: Let_def)
        qed
      qed
    qed
  qed
qed

lemma walk_found:
  assumes step_file: "\<And>d f. A d \<Longrightarrow> \<not> is_result_directory d \<Longrightarrow> valid_name f \<Longrightarrow>
                        \<not> is_result_file f \<Longrightarrow> Q (join d f)"
    and step_dir: "\<And>d n. A d \<Longrightarrow> \<not> is_result_directory d \<Longrightarrow> valid_name n \<Longrightarrow> A (join d n)"
  shows "names_ok t \<Longrightarrow> A root_path \<Longrightarrow> \<forall>p \<in> found s. Q p \<Longrightarrow>
           \<forall>p \<in> found (snd (walk fs root_path t s)). Q p"
    and "list_all (\<lambda>d. valid_name (fst d) \<and> names_ok (snd d)) dirs \<Longrightarrow> A root_path \<Longrightarrow>
           \<not> is_result_directory root_path \<Longrightarrow> \<forall>p \<in> found s. Q p \<Longrightarrow>
           \<forall>p \<in> found (snd (walk_dirs fs root_path dirs s)). Q p"
proof (induction fs root_path t s and fs root_path dirs s rule: walk_walk_dirs.induct)
  case (1 fs root_path s)
  then show ?case by simp
next
  case (2 fs root_path s)
  then show ?case by simp
next
  case (3 fs root_path dirs files s)
  show ?case
  proof (cases "stopped fs s")
    case True
    then show ?thesis using "3.prems"(3) by simp
  next
    case ns: False
    show ?thesis
    proof (cases "is_result_directory root_path")
      case True
      have "found ((tick s)\<lparr>skipped_dir_count := Suc (skipped_dir_count s)\<rparr>) = found s"
        by (simp add: found_def tick_def)
      then show ?thesis using ns True "3.prems"(3) by simp
    next
      case nr: False
      define kept where "kept = filter (\<lambda>d. \<not> is_result_directory (join root_path (fst d))) dirs"
      define s1 where "s1 = (tick s)\<lparr>skipped_dir_count :=
                                skipped_dir_count s + (length dirs - length kept)\<rparr>"
      have f1: "\<forall>p \<in> found s1. Q p"
        using "3.prems"(3) by (simp add: s1_def found_def tick_def)
      have files: "\<And>f. f \<in> set files \<Longrightarrow> \<not> is_result_file f \<Longrightarrow> Q (join root_path f)"
        using "3.prems"(1,2) nr step_file by (auto simp: list_all_iff)
      have f2: "\<forall>p \<in> found (scan_files fs root_path files s1). Q p"
        using files f1 by (rule scan_files_found)
      have k: "list_all (\<lambda>d. valid_name (fst d) \<and> names_ok (snd d)) kept"
        using "3.prems"(1) by (auto simp: kept_def list_all_iff)
      have "\<forall>p \<in> found (snd (walk_dirs fs root_path kept (scan_files fs root_path files s1))). Q p"
        using "3.IH" [OF ns nr kept_def s1_def k "3.prems"(2) nr f2] .
      then show ?thesis using ns nr by (simp add: Let_def kept_def s1_def)
    qed
  qed
next
  case (4 fs root_path s)
  then show ?case by simp
next
  case (5 fs root_path d dirs s)
  obtain e s1 where w: "walk fs (join root_path (fst d)) (snd d) s = (e, s1)" by fastforce
  have v: "valid_name (fst d)" "names_ok (snd d)"
    and rest: "list_all (\<lambda>d. valid_name (fst d) \<and> names_ok (snd d)) dirs"
    using "5.prems"(1) by simp_all
  have "A (join root_path (fst d))"
    using step_dir "5.prems"(2,3) v(1) by blast
  then have f1: "\<forall>p \<in> found s1. Q p"
    using "5.IH"(1) [OF v(2) _ "5.prems"(4)] w by simp
  show ?case
  proof (cases e)
    case Exhausted
    then show ?thesis
      using "5.IH"(2) [OF w [symmetric] Exhausted rest "5.prems"(2,3) f1] w by simp
  next
    case Break
    then show ?thesis using f1 w by simp
  next
    case Exception
    then show ?thesis using f1 w by simp
  qed
qed

lemma found_scanner0 [simp]: "found scanner0 = {}"
  by (simp add: found_def scanner0_def)

lemma scanner_run_found:
  "found (fst (scanner_run fs folder_path t)) = found (snd (walk fs folder_path t scanner0))"
  by (cases "walk fs folder_path t scanner0"; cases "fst (walk fs folder_path t scanner0)")
    (simp_all add: scanner_run_def)

lemma scanner_run_files:
  "FilesFound files \<in> set (snd (scanner_run fs folder_path t)) \<Longrightarrow>
     set files \<subseteq> found (fst (scanner_run fs folder_path t))"
  by (cases "walk fs folder_path t scanner0"; cases "fst (walk fs folder_path t scanner0)")
    (auto simp: scanner_run_def found_def tick_def split: if_splits)

subsection \<open>Files with "gemini" in their name\<close>

text \<open>
  Claim C10. In a tree of proper names, a file whose name contains "gemini" in any letter
  case is never classified, wherever it lies, whatever its extension and whatever exists
  on disk (the theorem holds for every \<open>path_exists\<close>): its path is not in the pending
  list, neither the scanner's nor the one it emits, and it is not an input (a key) of the
  already-processed pairs. The outputs recorded there for other inputs are named
  \<open>_gemini\<close> by construction; they are values, not inputs.
\<close>

theorem gemini_named_files_excluded:
  assumes "names_ok t" and "valid_name name" and "is_result_file name"
  shows "join directory name \<notin> set (image_files (fst (scanner_run fs folder_path t)))
         \<and> join directory name \<notin> fst ` set (already_processed (fst (scanner_run fs folder_path t)))
         \<and> (\<forall>files. FilesFound files \<in> set (snd (scanner_run fs folder_path t)) \<longrightarrow>
                join directory name \<notin> set files)"
proof -
  have "\<forall>p \<in> found (snd (walk fs folder_path t scanner0)). \<not> is_result_file (basename p)"
  proof (rule walk_found(1) [where A = "\<lambda>d. True"])
    show "\<not> is_result_file (basename (join d f))"
      if "valid_name f" "\<not> is_result_file f" for d f
      using that by (simp add: basename_join)
  qed (use assms(1) in simp_all)
  then have all: "\<forall>p \<in> found (fst (scanner_run fs folder_path t)). \<not> is_result_file (basename p)"
    by (simp add: scanner_run_found)
  have "is_result_file (basename (join directory name))"
    using assms(2,3) by (simp add: basename_join)
  then have out: "join directory name \<notin> found (fst (scanner_run fs folder_path t))"
    using all by blast
  then show ?thesis using scanner_run_files [of _ fs folder_path t] by (auto simp: found_def)
qed

text \<open>In the sample scan: \<open>My_GEMINI_pic.png\<close>, an image by its extension, is left out.\<close>

lemma sample_names_ok: "names_ok sample_tree"
  by (simp add: sample_tree_def valid_name_def sep_def)


theorem gemini_named_files_excluded_witness:
  "names_ok sample_tree \<and> valid_name ''My_GEMINI_pic.png''
   \<and> is_result_file ''My_GEMINI_pic.png'' \<and> has_image_extension ''My_GEMINI_pic.png''
   \<and> ''/in/My_GEMINI_pic.png'' \<notin> set (image_files (fst (scanner_run sample_world ''/in'' sample_tree)))
   \<and> ''/in/My_GEMINI_pic.png''
        \<notin> fst ` set (already_processed (fst (scanner_run sample_world ''/in'' sample_tree)))"
proof -
  have v: "valid_name ''My_GEMINI_pic.png''"
    by (simp add: valid_name_def sep_def)
  have g: "is_result_file ''My_GEMINI_pic.png''"
    by (simp add: is_result_file_def lower_char_def char_of_eq_iff)
  have x: "has_image_extension ''My_GEMINI_pic.png''"
    by (simp add: has_image_extension_def image_extensions_def endswith_def lower_char_def
        char_of_eq_iff)
  have j: "join ''/in'' ''My_GEMINI_pic.png'' = ''/in/My_GEMINI_pic.png''"
    by (simp add: join_def endswith_def sep_def)
  show ?thesis
    using gemini_named_files_excluded [OF sample_names_ok v g, of "''/in''" sample_world "''/in''"]
      sample_names_ok v g x
    unfolding j by blast
qed

subsection \<open>Results directories\<close>






end
